theory Spec2Isabelle
  imports Main "HOL-Library.Word"
begin

section \<open>The node graph of \<^verbatim>\<open>pymerkle/tree/nodes.py\<close>\<close>

subsection \<open>Values, exceptions and the hash function\<close>

text \<open>
  Python \<^verbatim>\<open>bytes\<close> are lists of octets, Python \<^verbatim>\<open>str\<close> values are lists of code
  points. The optional constructor arguments \<^verbatim>\<open>record\<close> and \<^verbatim>\<open>digest\<close> of a leaf are
  \<^verbatim>\<open>None\<close>, a \<^verbatim>\<open>str\<close> or a \<^verbatim>\<open>bytes\<close> object.
\<close>

type_synonym bytes = "8 word list"
type_synonym str = "nat list"

datatype pyval = PyNone | PyStr str | PyBytes bytes

text \<open>Truth value of an argument, as tested by \<^verbatim>\<open>if ... and record\<close>.\<close>

fun truthy :: "pyval \<Rightarrow> bool" where
  "truthy PyNone = False"
| "truthy (PyStr s) = (s \<noteq> [])"
| "truthy (PyBytes b) = (b \<noteq> [])"

text \<open>
  The exceptions that the module imports from \<^verbatim>\<open>pymerkle.exceptions\<close>, together with
  the two built-in ones that its statements can raise: \<^verbatim>\<open>AttributeError\<close> (an attribute
  or method is requested from an object that does not have it) and whatever
  \<^verbatim>\<open>bytes(digest, encoding)\<close> raises.
\<close>

datatype error =
    NoChildException
  | NoDescendantException
  | NoParentException
  | LeafConstructionError
  | UndecodableArgumentError
  | UndecodableRecord
  | AttributeError
  | TypeError
  | UnicodeEncodeError
  | LookupError

text \<open>
  The parameter \<^verbatim>\<open>hash_func\<close> is a callable of the hashing module, which is not part of
  \<^verbatim>\<open>nodes.py\<close>. It is called with one argument (a record) by \<^verbatim>\<open>Leaf.__init__\<close> and
  with two arguments (two digests) by \<^verbatim>\<open>Node.__init__\<close> and \<^verbatim>\<open>recalculate_hash\<close>;
  either call returns a digest or raises.
\<close>

record hash_func =
  single :: "pyval \<Rightarrow> error + bytes"
  pair :: "bytes \<Rightarrow> bytes \<Rightarrow> error + bytes"

text \<open>
  The built-in \<^verbatim>\<open>bytes(digest, encoding)\<close>: for a \<^verbatim>\<open>str\<close> it is the codec named by
  \<^verbatim>\<open>encoding\<close> (a parameter here: the codec tables are Python's), for a \<^verbatim>\<open>bytes\<close>
  object it raises \<^verbatim>\<open>TypeError\<close> (encoding without a string argument).
\<close>

type_synonym codec = "str \<Rightarrow> str \<Rightarrow> error + bytes"

fun py_bytes :: "codec \<Rightarrow> pyval \<Rightarrow> str \<Rightarrow> error + bytes" where
  "py_bytes cd (PyStr s) enc = cd s enc"
| "py_bytes cd (PyBytes b) enc = Inl TypeError"
| "py_bytes cd PyNone enc = Inl TypeError"

subsection \<open>Objects and the store\<close>

text \<open>
  Nodes are mutable objects that refer to each other, so they live in a store: a list of
  objects, an object's address being its position. Objects are never freed. A slot of
  \<^verbatim>\<open>__slots__\<close> that has not been assigned is \<open>None\<close>: only \<^verbatim>\<open>__child\<close> can be in that
  state, since \<^verbatim>\<open>__digest\<close>, \<^verbatim>\<open>__left\<close> and \<^verbatim>\<open>__right\<close> are assigned by every constructor
  that returns. A \<^verbatim>\<open>Leaf\<close> has no slots \<^verbatim>\<open>__left\<close> and \<^verbatim>\<open>__right\<close>.
\<close>

type_synonym addr = nat

datatype node =
    Leaf str "addr option" bytes
  | Node str "addr option" bytes addr addr

type_synonym heap = "node list"

fun slot_encoding :: "node \<Rightarrow> str" where
  "slot_encoding (Leaf e c d) = e"
| "slot_encoding (Node e c d l r) = e"

fun slot_child :: "node \<Rightarrow> addr option" where
  "slot_child (Leaf e c d) = c"
| "slot_child (Node e c d l r) = c"

fun slot_digest :: "node \<Rightarrow> bytes" where
  "slot_digest (Leaf e c d) = d"
| "slot_digest (Node e c d l r) = d"

fun with_child :: "addr \<Rightarrow> node \<Rightarrow> node" where
  "with_child p (Leaf e c d) = Leaf e (Some p) d"
| "with_child p (Node e c d l r) = Node e (Some p) d l r"

fun is_Node :: "node \<Rightarrow> bool" where
  "is_Node (Leaf e c d) = False"
| "is_Node (Node e c d l r) = True"

definition lookup :: "heap \<Rightarrow> addr \<Rightarrow> node option" where
  "lookup h n = (if n < length h then Some (h ! n) else None)"

text \<open>
  A Python reference always denotes a live object. An address outside the store stands for
  a reference to something that is not a node (such as \<^verbatim>\<open>None\<close>), on which every attribute
  access of this module raises \<^verbatim>\<open>AttributeError\<close>.
\<close>

subsection \<open>Properties of \<^verbatim>\<open>__Node\<close>\<close>

definition encoding :: "heap \<Rightarrow> addr \<Rightarrow> error + str" where
  "encoding h n =
     (case lookup h n of None \<Rightarrow> Inl AttributeError | Some nd \<Rightarrow> Inr (slot_encoding nd))"

definition digest :: "heap \<Rightarrow> addr \<Rightarrow> error + bytes" where
  "digest h n =
     (case lookup h n of None \<Rightarrow> Inl AttributeError | Some nd \<Rightarrow> Inr (slot_digest nd))"

definition child :: "heap \<Rightarrow> addr \<Rightarrow> error + addr" where
  "child h n =
     (case lookup h n of
        None \<Rightarrow> Inl AttributeError
      | Some nd \<Rightarrow> (case slot_child nd of None \<Rightarrow> Inl NoChildException | Some c \<Rightarrow> Inr c))"

definition set_child :: "heap \<Rightarrow> addr \<Rightarrow> addr \<Rightarrow> heap \<times> (error + unit)" where
  "set_child h n c =
     (if n < length h then (h[n := with_child c (h ! n)], Inr ()) else (h, Inl AttributeError))"

definition left :: "heap \<Rightarrow> addr \<Rightarrow> error + addr" where
  "left h n =
     (case lookup h n of
        None \<Rightarrow> Inl AttributeError
      | Some (Leaf e c d) \<Rightarrow> Inl NoParentException
      | Some (Node e c d l r) \<Rightarrow> Inr l)"

definition right :: "heap \<Rightarrow> addr \<Rightarrow> error + addr" where
  "right h n =
     (case lookup h n of
        None \<Rightarrow> Inl AttributeError
      | Some (Leaf e c d) \<Rightarrow> Inl NoParentException
      | Some (Node e c d l r) \<Rightarrow> Inr r)"



definition is_parent :: "heap \<Rightarrow> addr \<Rightarrow> error + bool" where
  "is_parent h n =
     (case child h n of
        Inl e \<Rightarrow> (if e = NoChildException then Inr False else Inl e)
      | Inr c \<Rightarrow> Inr True)"

text \<open>
  \<^verbatim>\<open>descendant\<close> recurses on the child with \<^verbatim>\<open>degree - 1\<close> until \<^verbatim>\<open>degree == 0\<close>. The
  degree is a Python integer, and nothing stops a negative one or a cyclic chain of child
  links, so the recursion is not bounded by its arguments: \<open>None\<close> is the run that does not
  return. (The interpreter's bound on the recursion depth is not modelled.)
\<close>

partial_function (option) descendant :: "heap \<Rightarrow> addr \<Rightarrow> int \<Rightarrow> (error + addr) option" where
  "descendant h n degree =
     (if degree = 0 then Some (Inr n)
      else (case child h n of
              Inl e \<Rightarrow> Some (Inl (if e = NoChildException then NoDescendantException else e))
            | Inr c \<Rightarrow> descendant h c (degree - 1)))"

subsection \<open>\<^verbatim>\<open>Leaf\<close>\<close>

text \<open>
  The constructor returns the store and either the exception raised or the address of the
  new leaf. An object whose constructor raises is not reachable afterwards, so the store is
  returned as it was.
\<close>

definition Leaf_init ::
  "codec \<Rightarrow> heap \<Rightarrow> hash_func \<Rightarrow> str \<Rightarrow> pyval \<Rightarrow> pyval \<Rightarrow> heap \<times> (error + addr)" where
  "Leaf_init cd h hf enc record dig =
     (if dig = PyNone \<and> truthy record then
        (case single hf record of
           Inl e \<Rightarrow> (h, Inl (if e = UndecodableArgumentError then UndecodableRecord else e))
         | Inr d \<Rightarrow> (h @ [Leaf enc None d], Inr (length h)))
      else if record = PyNone \<and> truthy dig then
        (case py_bytes cd dig enc of
           Inl e \<Rightarrow> (h, Inl e)
         | Inr d \<Rightarrow> (h @ [Leaf enc None d], Inr (length h)))
      else (h, Inl LeafConstructionError))"

subsection \<open>\<^verbatim>\<open>Node\<close>\<close>

text \<open>
  \<^verbatim>\<open>left.digest\<close> and \<^verbatim>\<open>right.digest\<close> are read first, then hashed; only
  \<^verbatim>\<open>UndecodableArgumentError\<close> is caught. On success the new object gets its three slots,
  and then the child slot of \<^verbatim>\<open>left\<close> and that of \<^verbatim>\<open>right\<close> are assigned, in this order.
\<close>

definition Node_init ::
  "heap \<Rightarrow> hash_func \<Rightarrow> str \<Rightarrow> addr \<Rightarrow> addr \<Rightarrow> heap \<times> (error + addr)" where
  "Node_init h hf enc l r =
     (case digest h l of
        Inl e \<Rightarrow> (h, Inl e)
      | Inr dl \<Rightarrow>
         (case digest h r of
            Inl e \<Rightarrow> (h, Inl e)
          | Inr dr \<Rightarrow>
             (case pair hf dl dr of
                Inl e \<Rightarrow> (h, Inl (if e = UndecodableArgumentError then UndecodableRecord else e))
              | Inr d \<Rightarrow>
                 (let p = length h;
                      h1 = h @ [Node enc None d l r];
                      h2 = h1[l := with_child p (h1 ! l)];
                      h3 = h2[r := with_child p (h2 ! r)]
                  in (h3, Inr p)))))"

text \<open>The methods below belong to \<^verbatim>\<open>Node\<close>; a \<^verbatim>\<open>Leaf\<close> does not have them.\<close>

definition set_left :: "heap \<Rightarrow> addr \<Rightarrow> addr \<Rightarrow> heap \<times> (error + unit)" where
  "set_left h n l' =
     (case lookup h n of
        Some (Node e c d l r) \<Rightarrow> (h[n := Node e c d l' r], Inr ())
      | _ \<Rightarrow> (h, Inl AttributeError))"

definition set_right :: "heap \<Rightarrow> addr \<Rightarrow> addr \<Rightarrow> heap \<times> (error + unit)" where
  "set_right h n r' =
     (case lookup h n of
        Some (Node e c d l r) \<Rightarrow> (h[n := Node e c d l r'], Inr ())
      | _ \<Rightarrow> (h, Inl AttributeError))"

text \<open>
  \<^verbatim>\<open>recalculate_hash\<close> re-raises what it catches, so every exception of the hash function
  leaves it unchanged; the digest is assigned only after the hash function has returned.
\<close>

definition recalculate_hash :: "heap \<Rightarrow> addr \<Rightarrow> hash_func \<Rightarrow> heap \<times> (error + unit)" where
  "recalculate_hash h n hf =
     (case lookup h n of
        Some (Node e c d l r) \<Rightarrow>
          (case digest h l of
             Inl x \<Rightarrow> (h, Inl x)
           | Inr dl \<Rightarrow>
              (case digest h r of
                 Inl x \<Rightarrow> (h, Inl x)
               | Inr dr \<Rightarrow>
                  (case pair hf dl dr of
                     Inl x \<Rightarrow> (h, Inl x)
                   | Inr d' \<Rightarrow> (h[n := Node e c d' l r], Inr ()))))
      | _ \<Rightarrow> (h, Inl AttributeError))"

subsection \<open>Notions used to state the properties\<close>

text \<open>
  The child link of a node as a partial function, and the node reached by following it
  \<open>k\<close> times (\<open>None\<close> when the chain of child links ends before that).
\<close>

definition child_link :: "heap \<Rightarrow> addr \<Rightarrow> addr option" where
  "child_link h n = (case lookup h n of None \<Rightarrow> None | Some nd \<Rightarrow> slot_child nd)"

fun follow_child :: "heap \<Rightarrow> nat \<Rightarrow> addr \<Rightarrow> addr option" where
  "follow_child h 0 n = Some n"
| "follow_child h (Suc k) n =
     (case child_link h n of None \<Rightarrow> None | Some c \<Rightarrow> follow_child h k c)"

text \<open>A store is closed when every link stored in it is the address of one of its objects.\<close>

fun refs_ok :: "nat \<Rightarrow> node \<Rightarrow> bool" where
  "refs_ok m (Leaf e c d) = (case c of None \<Rightarrow> True | Some p \<Rightarrow> p < m)"
| "refs_ok m (Node e c d l r) = ((case c of None \<Rightarrow> True | Some p \<Rightarrow> p < m) \<and> l < m \<and> r < m)"

definition closed :: "heap \<Rightarrow> bool" where
  "closed h = list_all (refs_ok (length h)) h"

text \<open>
  Invariant I1 at one internal node: its digest is the hash of the digests of the nodes its
  left and right links point to.
\<close>

definition I1_at :: "hash_func \<Rightarrow> heap \<Rightarrow> addr \<Rightarrow> bool" where
  "I1_at hf h n =
     (case lookup h n of
        Some (Node e c d l r) \<Rightarrow>
          (case digest h l of
             Inl x \<Rightarrow> False
           | Inr dl \<Rightarrow> (case digest h r of Inl x \<Rightarrow> False | Inr dr \<Rightarrow> pair hf dl dr = Inr d))
      | _ \<Rightarrow> False)"

definition I1 :: "hash_func \<Rightarrow> heap \<Rightarrow> bool" where
  "I1 hf h = list_all (\<lambda>n. \<not> is_Node (h ! n) \<or> I1_at hf h n) [0..<length h]"

text \<open>
  The operations of the module that change the store, as commands, and their effect on
  the store. An operation that raises leaves the store as it was.
\<close>

datatype op =
    NewLeaf hash_func str pyval pyval
  | NewNode hash_func str addr addr
  | SetChild addr addr
  | SetLeft addr addr
  | SetRight addr addr
  | Recalculate addr hash_func

fun exec :: "codec \<Rightarrow> heap \<Rightarrow> op \<Rightarrow> heap" where
  "exec cd h (NewLeaf hf enc record dig) = fst (Leaf_init cd h hf enc record dig)"
| "exec cd h (NewNode hf enc l r) = fst (Node_init h hf enc l r)"
| "exec cd h (SetChild n c) = fst (set_child h n c)"
| "exec cd h (SetLeft n l) = fst (set_left h n l)"
| "exec cd h (SetRight n r) = fst (set_right h n r)"
| "exec cd h (Recalculate n hf) = fst (recalculate_hash h n hf)"

fun exec_all :: "codec \<Rightarrow> heap \<Rightarrow> op list \<Rightarrow> heap" where
  "exec_all cd h [] = h"
| "exec_all cd h (x # xs) = exec_all cd (exec cd h x) xs"


text \<open>
  The references that an operation stores are references to objects of the store. (The
  operands of \<^verbatim>\<open>Node.__init__\<close> need no condition: their digests are read before anything
  is stored.)
\<close>

fun op_refs_ok :: "heap \<Rightarrow> op \<Rightarrow> bool" where
  "op_refs_ok h (SetChild n c) = (c < length h)"
| "op_refs_ok h (SetLeft n l) = (l < length h)"
| "op_refs_ok h (SetRight n r) = (r < length h)"
| "op_refs_ok h x = True"

subsection \<open>Example data\<close>

text \<open>
  A toy hash function (concatenation of the two digests; a \<^verbatim>\<open>bytes\<close> record is its own
  digest) and a hash function that always raises \<^verbatim>\<open>UndecodableArgumentError\<close>. They
  serve to run the operations on concrete stores.
\<close>

definition concat_hash :: hash_func where
  "concat_hash =
     \<lparr>single = (\<lambda>v. case v of PyBytes b \<Rightarrow> Inr b | PyStr s \<Rightarrow> Inr (map of_nat s)
                              | PyNone \<Rightarrow> Inl TypeError),
      pair = (\<lambda>a b. Inr (a @ b))\<rparr>"


text \<open>
  The codec \<^verbatim>\<open>ascii\<close> as \<^verbatim>\<open>bytes(s, encoding)\<close> applies it: a code point below 128
  becomes the octet of the same value, any other code point raises
  \<^verbatim>\<open>UnicodeEncodeError\<close>, and any other encoding name is unknown here and raises
  \<^verbatim>\<open>LookupError\<close>.
\<close>

definition ascii_name :: str where
  "ascii_name = [97, 115, 99, 105, 105]"

definition ascii_codec :: codec where
  "ascii_codec s enc =
     (if enc \<noteq> ascii_name then Inl LookupError
      else if list_all (\<lambda>c. c < 128) s then Inr (map of_nat s)
      else Inl UnicodeEncodeError)"


text \<open>Two leaves with digests \<open>[1]\<close> and \<open>[2]\<close>, before and after they are joined.\<close>

definition two_leaves :: heap where
  "two_leaves = [Leaf [] None [1], Leaf [] None [2]]"

definition joined :: heap where
  "joined = [Leaf [] (Some 2) [1], Leaf [] (Some 2) [2], Node [] None [1, 2] 0 1]"

text \<open>
  The same store with a third leaf, of digest \<open>[3]\<close>; then after the right link of the
  internal node has been pointed to the third leaf; then after the digest of the internal
  node has been recalculated.
\<close>

definition grown :: heap where
  "grown = [Leaf [] (Some 2) [1], Leaf [] (Some 2) [2], Node [] None [1, 2] 0 1,
            Leaf [] None [3]]"

definition repointed :: heap where
  "repointed = [Leaf [] (Some 2) [1], Leaf [] (Some 2) [2], Node [] None [1, 2] 0 3,
                Leaf [] None [3]]"

definition recalculated :: heap where
  "recalculated = [Leaf [] (Some 2) [1], Leaf [] (Some 2) [2], Node [] None [1, 3] 0 3,
                   Leaf [] None [3]]"

section \<open>The tree, the proof generator and the verifier\<close>

text \<open>
  The classes of \<^verbatim>\<open>nodes.py\<close> are used by the tree (\<^verbatim>\<open>MerkleTree\<close>, with \<^verbatim>\<open>update\<close>,
  \<^verbatim>\<open>length\<close>, \<^verbatim>\<open>rootHash\<close> and \<^verbatim>\<open>auditProof\<close>), by the hash engine and by the verifier
  (\<^verbatim>\<open>validateProof\<close>). Their modules are not part of the sources verified here: only the
  test module \<^verbatim>\<open>tests/validations/test_validations.py\<close> calls them. Every definition of this
  section is therefore written from the specification, section by section, as a
  functional model: a tree is a value, and the walk from a leaf towards the root through
  the child links becomes a recursion that collects the siblings from the leaf upwards.
\<close>

subsection \<open>Hash engine (specification, 4.1)\<close>

text \<open>
  Modelled from the spec: the records. A record is a text or a byte string
  (\<^verbatim>\<open>'%d-th record'\<close> and \<^verbatim>\<open>bytes('%d-th record', tree.encoding)\<close> in the tests).
\<close>

datatype rcd = Text str | Bytes bytes

text \<open>
  Modelled from the spec: the error kinds of its section 7 that a caller can see.
\<close>

datatype failure = Undecodable | LeafConstruction | EmptyTree | InvalidType

text \<open>
  Modelled from the spec: the configuration of the hash engine (the hashing module is
  missing). It is fixed at tree construction: the selected hash algorithm (any function
  from bytes to bytes), the encoding of text into bytes (\<open>None\<close> for a text that cannot be
  encoded) and the security mode.
\<close>

record config =
  algorithm :: "bytes \<Rightarrow> bytes"
  encode_text :: "str \<Rightarrow> bytes option"
  security :: bool

text \<open>
  Modelled from the spec: the prefixes, which are empty in insecure mode and otherwise
  the single-byte tags \<open>0x00\<close> for leaf inputs and \<open>0x01\<close> for internal inputs.
\<close>

definition leaf_prefix :: "config \<Rightarrow> bytes" where
  "leaf_prefix cfg = (if security cfg then [0] else [])"

definition internal_prefix :: "config \<Rightarrow> bytes" where
  "internal_prefix cfg = (if security cfg then [1] else [])"

text \<open>
  Modelled from the spec: the operation \<open>digest(a, b?)\<close> of the missing hash engine over
  byte inputs: \<open>H(prefix || a)\<close> with one input, \<open>H(prefix || a || prefix || b)\<close> with two.
\<close>

definition engine_digest1 :: "config \<Rightarrow> bytes \<Rightarrow> bytes" where
  "engine_digest1 cfg a = algorithm cfg (leaf_prefix cfg @ a)"

definition engine_digest2 :: "config \<Rightarrow> bytes \<Rightarrow> bytes \<Rightarrow> bytes" where
  "engine_digest2 cfg a b =
     algorithm cfg (internal_prefix cfg @ a @ internal_prefix cfg @ b)"

text \<open>
  Modelled from the spec: text inputs are encoded to bytes with the configured encoding
  before hashing, and an input that cannot be encoded fails with \<open>Undecodable\<close>.
\<close>

fun record_bytes :: "config \<Rightarrow> rcd \<Rightarrow> bytes option" where
  "record_bytes cfg (Text s) = encode_text cfg s"
| "record_bytes cfg (Bytes b) = Some b"

definition record_digest :: "config \<Rightarrow> rcd \<Rightarrow> failure + bytes" where
  "record_digest cfg r =
     (case record_bytes cfg r of
        None \<Rightarrow> Inl Undecodable
      | Some b \<Rightarrow> Inr (engine_digest1 cfg b))"

subsection \<open>Tree state and append (specification, 3 and 4.3)\<close>

text \<open>
  Modelled from the spec: the node graph as the tree owns it, a leaf holding a digest and
  an internal node holding a digest and its left and right operands (the tagged variant
  of the design notes). The child back-links are left out: the model walks downwards.
\<close>

datatype mtree = MLeaf bytes | MNode bytes mtree mtree

fun root_digest :: "mtree \<Rightarrow> bytes" where
  "root_digest (MLeaf d) = d"
| "root_digest (MNode d l r) = d"

fun leaf_count :: "mtree \<Rightarrow> nat" where
  "leaf_count (MLeaf d) = 1"
| "leaf_count (MNode d l r) = leaf_count l + leaf_count r"

fun height :: "mtree \<Rightarrow> nat" where
  "height (MLeaf d) = 0"
| "height (MNode d l r) = Suc (max (height l) (height r))"

fun leaves :: "mtree \<Rightarrow> bytes list" where
  "leaves (MLeaf d) = [d]"
| "leaves (MNode d l r) = leaves l @ leaves r"

text \<open>
  Modelled from the spec: the creation of an internal node from two existing nodes by the
  missing tree; its digest is \<open>H(left.digest, right.digest)\<close>.
\<close>

definition join :: "config \<Rightarrow> mtree \<Rightarrow> mtree \<Rightarrow> mtree" where
  "join cfg l r = MNode (engine_digest2 cfg (root_digest l) (root_digest r)) l r"

text \<open>
  Modelled from the spec: the state of the missing class \<^verbatim>\<open>MerkleTree\<close>, an ordered list
  of principal sub-roots (left to right) and the current overall root, with the
  configuration fixed at construction.
\<close>

record merkle_tree =
  tree_config :: config
  subroots :: "mtree list"
  root :: "mtree option"

definition new_tree :: "config \<Rightarrow> merkle_tree" where
  "new_tree cfg = \<lparr>tree_config = cfg, subroots = [], root = None\<rparr>"

text \<open>
  Modelled from the spec: the upward merge of append (step 4): while the two rightmost
  principal sub-roots \<open>a\<close>, \<open>b\<close> have equal height, they are replaced by the new internal
  node with \<open>left = a\<close> and \<open>right = b\<close>. \<open>merge_rightmost\<close> works on the list read from the
  right, so that the rightmost sub-root comes first.
\<close>

function merge_rightmost :: "config \<Rightarrow> mtree list \<Rightarrow> mtree list" where
  "merge_rightmost cfg (b # a # rest) =
     (if height a = height b then merge_rightmost cfg (join cfg a b # rest)
      else b # a # rest)"
| "merge_rightmost cfg [b] = [b]"
| "merge_rightmost cfg [] = []"
  by pat_completeness auto
termination
  by (relation "measure (\<lambda>(cfg, ps). length ps)") auto

definition merge_subroots :: "config \<Rightarrow> mtree list \<Rightarrow> mtree list" where
  "merge_subroots cfg ps = rev (merge_rightmost cfg (rev ps))"

text \<open>
  Modelled from the spec: the overall root (step 5), the right-fold of the principal
  sub-roots: the two rightmost are combined first, then the result with the sub-root to
  its left, and so on. There is no root when there is no sub-root.
\<close>

fun fold_from :: "config \<Rightarrow> mtree \<Rightarrow> mtree list \<Rightarrow> mtree" where
  "fold_from cfg p [] = p"
| "fold_from cfg p (q # qs) = join cfg p (fold_from cfg q qs)"

fun fold_root :: "config \<Rightarrow> mtree list \<Rightarrow> mtree option" where
  "fold_root cfg [] = None"
| "fold_root cfg (p # ps) = Some (fold_from cfg p ps)"

text \<open>
  Modelled from the spec: \<open>length\<close>, the number of appended records (each is one leaf),
  the leaves from left to right, and \<open>rootHash\<close>, the digest of the current root. What
  \<open>rootHash\<close> is on the empty tree is an open question of the specification: it is
  \<open>None\<close> here.
\<close>

definition tree_length :: "merkle_tree \<Rightarrow> nat" where
  "tree_length T = sum_list (map leaf_count (subroots T))"

definition tree_leaves :: "merkle_tree \<Rightarrow> bytes list" where
  "tree_leaves T = concat (map leaves (subroots T))"

definition rootHash :: "merkle_tree \<Rightarrow> bytes option" where
  "rootHash T = map_option root_digest (root T)"

text \<open>
  Modelled from the spec: \<open>Append(record)\<close> of the missing class, that is \<^verbatim>\<open>update\<close>.
  Step 1 constructs the leaf, which fails with \<open>Undecodable\<close> and leaves the tree as it is
  when the record cannot be encoded; step 2 is the empty tree; steps 4 and 5 are
  \<open>merge_subroots\<close> and \<open>fold_root\<close>. The internal node that step 3 creates over the
  rightmost sub-root and the new leaf is the first node that step 4 creates when their
  heights are equal, and the innermost node of the fold of step 5 otherwise.
\<close>

definition update :: "merkle_tree \<Rightarrow> rcd \<Rightarrow> failure + merkle_tree" where
  "update T r =
     (case record_digest (tree_config T) r of
        Inl e \<Rightarrow> Inl e
      | Inr d \<Rightarrow>
         (if tree_length T = 0 then
            Inr (T\<lparr>subroots := [MLeaf d], root := Some (MLeaf d)\<rparr>)
          else
            (let ps = merge_subroots (tree_config T) (subroots T @ [MLeaf d])
             in Inr (T\<lparr>subroots := ps, root := fold_root (tree_config T) ps\<rparr>))))"

text \<open>
  Modelled from the spec: tree construction with an initial list of records to append,
  as the tests call it (\<^verbatim>\<open>MerkleTree(*records, hash_type=..., encoding=..., security=...)\<close>).
\<close>

fun update_all :: "merkle_tree \<Rightarrow> rcd list \<Rightarrow> failure + merkle_tree" where
  "update_all T [] = Inr T"
| "update_all T (r # rs) =
     (case update T r of Inl e \<Rightarrow> Inl e | Inr T' \<Rightarrow> update_all T' rs)"

definition MerkleTree :: "config \<Rightarrow> rcd list \<Rightarrow> failure + merkle_tree" where
  "MerkleTree cfg rs = update_all (new_tree cfg) rs"

subsection \<open>Proofs and the audit path (specification, 4.4 and 4.5)\<close>

text \<open>
  Modelled from the spec: the sign of a path element, \<open>+1\<close> for a sibling to the right of
  the accumulator and \<open>-1\<close> for a sibling to its left, and the proof object with the
  fields that verification reads (hash configuration, \<open>proof_index\<close>, \<open>proof_path\<close>); the
  identifiers and timestamps of a proof are left out.
\<close>

datatype sign = Plus | Minus

type_synonym path = "(sign \<times> bytes) list"

record merkle_proof =
  proof_config :: config
  proof_index :: int
  proof_path :: path

text \<open>
  Modelled from the spec: the walk from leaf \<open>i\<close> of a sub-tree up to its root. Where the
  current node is the left parent the sibling is the right one, with sign \<open>+1\<close>; where it
  is the right parent the sibling is the left one, with sign \<open>-1\<close>. The result is the
  digest of the leaf and the siblings from the leaf upwards.
\<close>

fun subtree_path :: "mtree \<Rightarrow> nat \<Rightarrow> bytes \<times> path" where
  "subtree_path (MLeaf d) i = (d, [])"
| "subtree_path (MNode d l r) i =
     (if i < leaf_count l then
        (case subtree_path l i of (s, p) \<Rightarrow> (s, p @ [(Plus, root_digest r)]))
      else
        (case subtree_path r (i - leaf_count l) of
           (s, p) \<Rightarrow> (s, p @ [(Minus, root_digest l)])))"

text \<open>
  Modelled from the spec: the fold-sequence that combines the principal sub-root reached
  by the walk with the other principal sub-roots, first those to its right (their fold
  is one sibling on the right), then those to its left, the nearest first.
\<close>

definition fold_sequence :: "config \<Rightarrow> mtree list \<Rightarrow> mtree list \<Rightarrow> path" where
  "fold_sequence cfg lefts rights =
     (case rights of [] \<Rightarrow> [] | q # qs \<Rightarrow> [(Plus, root_digest (fold_from cfg q qs))]) @
     map (\<lambda>p. (Minus, root_digest p)) (rev lefts)"

text \<open>
  Modelled from the spec: the audit path of leaf \<open>i\<close>. The principal sub-root that holds
  the leaf is found by the leaf counts; the path starts with the digest of the leaf (the
  element that \<open>proof_index\<close> points to), goes up inside the sub-tree and ends with the
  fold-sequence. \<open>None\<close> when there is no leaf \<open>i\<close>.
\<close>

fun audit_path :: "config \<Rightarrow> mtree list \<Rightarrow> mtree list \<Rightarrow> nat \<Rightarrow> path option" where
  "audit_path cfg lefts [] i = None"
| "audit_path cfg lefts (p # rights) i =
     (if i < leaf_count p then
        (case subtree_path p i of
           (s, sibs) \<Rightarrow> Some ((Plus, s) # sibs @ fold_sequence cfg lefts rights))
      else audit_path cfg (lefts @ [p]) rights (i - leaf_count p))"

text \<open>
  Modelled from the spec: the sentinel proof that the generator returns instead of
  failing. Of the two forms that the specification allows (an empty path, or a path with
  a marker), it is the one with the empty path, and its index is negative: these are the
  proofs that step 2 of the verifier rejects without replaying anything, which is what
  makes the sentinel fail against every target.
\<close>

definition sentinel :: "config \<Rightarrow> merkle_proof" where
  "sentinel cfg = \<lparr>proof_config = cfg, proof_index = - 1, proof_path = []\<rparr>"

text \<open>
  Modelled from the spec: a record is resolved to the leftmost leaf whose digest matches.
\<close>

fun index_of :: "bytes \<Rightarrow> bytes list \<Rightarrow> nat option" where
  "index_of d [] = None"
| "index_of d (x # xs) = (if x = d then Some 0 else map_option Suc (index_of d xs))"

text \<open>
  Modelled from the spec: \<^verbatim>\<open>auditProof\<close> of the missing class. Its argument is a
  zero-based index or a record. A negative index, an index out of range and a record
  that is not found give the sentinel. The specification does not say what happens to a
  record that cannot be encoded: the failure of the hash engine is passed on.
\<close>

datatype audit_arg = Index int | Record rcd

definition audit_by_index :: "merkle_tree \<Rightarrow> int \<Rightarrow> merkle_proof" where
  "audit_by_index T i =
     (if i < 0 \<or> int (tree_length T) \<le> i then sentinel (tree_config T)
      else (case audit_path (tree_config T) [] (subroots T) (nat i) of
              None \<Rightarrow> sentinel (tree_config T)
            | Some p \<Rightarrow> \<lparr>proof_config = tree_config T, proof_index = 0, proof_path = p\<rparr>))"

fun auditProof :: "merkle_tree \<Rightarrow> audit_arg \<Rightarrow> failure + merkle_proof" where
  "auditProof T (Index i) = Inr (audit_by_index T i)"
| "auditProof T (Record r) =
     (case record_digest (tree_config T) r of
        Inl e \<Rightarrow> Inl e
      | Inr d \<Rightarrow>
         (case index_of d (tree_leaves T) of
            None \<Rightarrow> Inr (sentinel (tree_config T))
          | Some i \<Rightarrow> Inr (audit_by_index T (int i))))"

subsection \<open>Verifier (specification, 4.6)\<close>

text \<open>
  Modelled from the spec: steps 3 and 4 of the missing \<^verbatim>\<open>validateProof\<close>, the replay of
  the path: with sign \<open>+1\<close> the accumulator becomes \<open>H(acc, sibling)\<close>, with sign \<open>-1\<close>
  it becomes \<open>H(sibling, acc)\<close>.
\<close>

fun replay :: "config \<Rightarrow> bytes \<Rightarrow> path \<Rightarrow> bytes" where
  "replay cfg acc [] = acc"
| "replay cfg acc ((Plus, d) # ps) = replay cfg (engine_digest2 cfg acc d) ps"
| "replay cfg acc ((Minus, d) # ps) = replay cfg (engine_digest2 cfg d acc) ps"

text \<open>
  Modelled from the spec: \<^verbatim>\<open>validateProof(target, proof)\<close>. The hash engine is the one of
  the proof's configuration; an empty path or a negative index gives false; otherwise
  the accumulator starts at the digest at \<open>proof_index\<close>, the elements after it are
  replayed, and the result is compared with the target. The verifier never raises on a
  bad proof, so an index beyond the path gives false as well.
\<close>

definition validateProof :: "bytes \<Rightarrow> merkle_proof \<Rightarrow> bool" where
  "validateProof target p =
     (if proof_path p = [] \<or> proof_index p < 0 then False
      else if length (proof_path p) \<le> nat (proof_index p) then False
      else replay (proof_config p) (snd (proof_path p ! nat (proof_index p)))
             (drop (Suc (nat (proof_index p))) (proof_path p)) = target)"

subsection \<open>Invariants and example data of the tree\<close>

text \<open>
  Invariant I1 on a tree value, and the two facts about the state that every append
  keeps: I1 holds in every principal sub-root, and the root is their fold.
\<close>

fun digests_ok :: "config \<Rightarrow> mtree \<Rightarrow> bool" where
  "digests_ok cfg (MLeaf d) = True"
| "digests_ok cfg (MNode d l r) =
     (d = engine_digest2 cfg (root_digest l) (root_digest r) \<and>
      digests_ok cfg l \<and> digests_ok cfg r)"

definition subroots_ok :: "merkle_tree \<Rightarrow> bool" where
  "subroots_ok T =
     (list_all (digests_ok (tree_config T)) (subroots T) \<and>
      root T = fold_root (tree_config T) (subroots T))"

text \<open>
  A toy configuration (the hash algorithm returns its input, a code point is encoded as
  the octet of the same value, security mode is on), three records and the tree that
  appending them gives.
\<close>

definition toy_config :: config where
  "toy_config =
     \<lparr>algorithm = (\<lambda>b. b), encode_text = (\<lambda>s. Some (map of_nat s)), security = True\<rparr>"

definition three_records :: "rcd list" where
  "three_records = [Text [97], Text [98], Bytes [99]]"

definition three_tree :: merkle_tree where
  "three_tree =
     \<lparr>tree_config = toy_config,
      subroots = [MNode [1, 0, 97, 1, 0, 98] (MLeaf [0, 97]) (MLeaf [0, 98]), MLeaf [0, 99]],
      root = Some (MNode [1, 1, 0, 97, 1, 0, 98, 1, 0, 99]
                     (MNode [1, 0, 97, 1, 0, 98] (MLeaf [0, 97]) (MLeaf [0, 98]))
                     (MLeaf [0, 99]))\<rparr>"



section \<open>Properties of the node graph\<close>

lemma lookup_Some_iff: "lookup h n = Some nd \<longleftrightarrow> n < length h \<and> h ! n = nd"
  by (auto simp: lookup_def)

lemma lookup_None_iff: "lookup h n = None \<longleftrightarrow> length h \<le> n"
  by (auto simp: lookup_def)

lemma digest_Inr_iff: "digest h n = Inr d \<longleftrightarrow> n < length h \<and> slot_digest (h ! n) = d"
  by (auto simp: digest_def lookup_def)

lemma slot_with_child [simp]:
  "slot_child (with_child p nd) = Some p"
  "slot_digest (with_child p nd) = slot_digest nd"
  "slot_encoding (with_child p nd) = slot_encoding nd"
  "is_Node (with_child p nd) = is_Node nd"
  by (cases nd; simp)+

lemma with_child_twice [simp]: "with_child p (with_child q nd) = with_child p nd"
  by (cases nd) simp_all

lemma Node_init_Inr:
  assumes "Node_init h hf enc a b = (h', Inr p)"
  shows "a < length h \<and> b < length h \<and> p = length h \<and>
         (\<exists>d. pair hf (slot_digest (h ! a)) (slot_digest (h ! b)) = Inr d \<and>
           h' = ((h @ [Node enc None d a b])[a := with_child (length h) (h ! a)])
                   [b := with_child (length h) (((h @ [Node enc None d a b])[a := with_child (length h) (h ! a)]) ! b)])"
  using assms
  by (auto simp: Node_init_def Let_def digest_def lookup_def nth_append split: sum.splits if_splits)

lemma Node_init_links_partial:
  assumes "Node_init h hf enc a b = (h', Inr p)"
  shows "left h' p = Inr a \<and> right h' p = Inr b \<and> child h' a = Inr p \<and> child h' b = Inr p"
  using Node_init_Inr[OF assms]
  by (auto simp: left_def right_def child_def lookup_def nth_append nth_list_update)

lemma Node_init_returns:
  assumes "digest h a = Inr da" and "digest h b = Inr db" and "pair hf da db = Inr d"
  shows "\<exists>h'. Node_init h hf enc a b = (h', Inr (length h))"
  using assms by (simp add: Node_init_def Let_def)

text \<open>
  Claim C4. Constructing an internal node from two existing nodes \<open>a\<close> and \<open>b\<close> (leaves
  or internal nodes, possibly the same one) whose digests the hash function accepts returns
  a node \<open>p\<close> with \<open>p.left == a\<close>, \<open>p.right == b\<close>, \<open>a.child == p\<close> and
  \<open>b.child == p\<close>.
\<close>

theorem Node_init_links:
  assumes "digest h a = Inr da" and "digest h b = Inr db" and "pair hf da db = Inr d"
  shows "\<exists>h' p. Node_init h hf enc a b = (h', Inr p) \<and>
           left h' p = Inr a \<and> right h' p = Inr b \<and> child h' a = Inr p \<and> child h' b = Inr p"
proof -
  from Node_init_returns[OF assms] obtain h' where
    h': "Node_init h hf enc a b = (h', Inr (length h))" by blast
  from Node_init_links_partial[OF h'] h' show ?thesis by blast
qed

theorem Node_init_links_witness:
  "digest two_leaves 0 = Inr [1] \<and> digest two_leaves 1 = Inr [2] \<and>
   pair concat_hash [1] [2] = Inr [1, 2] \<and>
   Node_init two_leaves concat_hash [] 0 1 = (joined, Inr 2) \<and>
   left joined 2 = Inr 0 \<and> right joined 2 = Inr 1 \<and>
   child joined 0 = Inr 2 \<and> child joined 1 = Inr 2"
proof -
  have a: "digest two_leaves 0 = Inr [1]" and b: "digest two_leaves 1 = Inr [2]"
    by (simp_all add: digest_def lookup_def two_leaves_def)
  have c: "pair concat_hash [1] [2] = Inr [1, 2]"
    by (simp add: concat_hash_def)
  have run: "Node_init two_leaves concat_hash [] 0 1 = (joined, Inr 2)"
    by (simp add: Node_init_def Let_def digest_def lookup_def two_leaves_def joined_def
        concat_hash_def)
  from Node_init_links[OF a b c, of "[]"] a b c run show ?thesis by simp
qed



lemma Leaf_init_LeafConstructionError:
  assumes "\<not> (dig = PyNone \<and> truthy rcd)" and "\<not> (rcd = PyNone \<and> truthy dig)"
  shows "Leaf_init cd h hf enc rcd dig = (h, Inl LeafConstructionError)"
  using assms by (auto simp: Leaf_init_def)

text \<open>
  Claim C6. The constructor tests \<^verbatim>\<open>record\<close> and \<^verbatim>\<open>digest\<close> for truth, not for being
  \<^verbatim>\<open>None\<close>: with the empty string as the only argument provided (as record, or as
  digest) it raises \<^verbatim>\<open>LeafConstructionError\<close>, although exactly one of the two was
  provided.
\<close>

theorem Leaf_init_empty_record:
  "Leaf_init cd h hf enc (PyStr []) PyNone = (h, Inl LeafConstructionError) \<and>
   Leaf_init cd h hf enc (PyBytes []) PyNone = (h, Inl LeafConstructionError) \<and>
   Leaf_init cd h hf enc PyNone (PyStr []) = (h, Inl LeafConstructionError)"
  by (simp add: Leaf_init_def)




lemma descendant_zero: "descendant h n 0 = Some (Inr n)"
  by (simp add: descendant.simps)

lemma closed_child:
  assumes "closed h" "n < length h" "slot_child (h ! n) = Some c"
  shows "c < length h"
proof -
  have "refs_ok (length h) (h ! n)"
    using assms(1,2) by (simp add: closed_def list_all_length)
  then show ?thesis using assms(3) by (cases "h ! n") auto
qed

lemma descendant_follow:
  assumes "closed h"
  shows "n < length h \<Longrightarrow> descendant h n (int k) =
     Some (case follow_child h k n of Some m \<Rightarrow> Inr m | None \<Rightarrow> Inl NoDescendantException)"
proof (induction k arbitrary: n)
  case 0
  then show ?case by (simp add: descendant.simps)
next
  case (Suc k)
  show ?case
  proof (cases "slot_child (h ! n)")
    case None
    then show ?thesis using Suc.prems
      by (subst descendant.simps) (simp add: child_def child_link_def lookup_def)
  next
    case (Some c)
    then have "c < length h" using closed_child[OF assms Suc.prems] by simp
    then have "descendant h c (int k) =
      Some (case follow_child h k c of Some m \<Rightarrow> Inr m | None \<Rightarrow> Inl NoDescendantException)"
      by (rule Suc.IH)
    then show ?thesis using Some Suc.prems
      by (subst descendant.simps) (simp add: child_def child_link_def lookup_def)
  qed
qed

text \<open>
  Claim C5. For a non-negative \<open>k\<close>, \<open>descendant(k)\<close> returns the node reached by
  following the child link \<open>k\<close> times and raises \<^verbatim>\<open>NoDescendantException\<close> exactly
  when the chain of child links ends before \<open>k\<close> steps; \<open>descendant(0)\<close> returns the
  node itself. The node is an object of a closed store, as every Python object is.
\<close>

theorem descendant_spec:
  "descendant h n 0 = Some (Inr n) \<and>
   (closed h \<and> n < length h \<and> 0 \<le> k \<longrightarrow>
      descendant h n k =
        Some (case follow_child h (nat k) n of
                Some m \<Rightarrow> Inr m
              | None \<Rightarrow> Inl NoDescendantException))"
  using descendant_follow[of h n "nat k"] descendant_zero[of h n] by auto

lemma closed_joined: "closed joined"
  by (simp add: closed_def joined_def)

theorem descendant_spec_witness:
  "closed joined \<and> 0 < length joined \<and> (0::int) \<le> 1 \<and>
   descendant joined 0 0 = Some (Inr 0) \<and>
   descendant joined 0 1 = Some (Inr 2) \<and>
   descendant joined 0 2 = Some (Inl NoDescendantException)"
proof -
  have n: "0 < length joined" by (simp add: joined_def)
  have one: "follow_child joined (nat 1) 0 = Some 2"
    by (simp add: child_link_def lookup_def joined_def)
  have two: "follow_child joined (nat 2) 0 = None"
    by (simp add: numeral_2_eq_2 child_link_def lookup_def joined_def)
  from descendant_spec[of joined 0 1] closed_joined n one
  have "descendant joined 0 0 = Some (Inr 0) \<and> descendant joined 0 1 = Some (Inr 2)"
    by simp
  moreover from descendant_spec[of joined 0 2] closed_joined n two
  have "descendant joined 0 2 = Some (Inl NoDescendantException)"
    by simp
  ultimately show ?thesis using closed_joined n by simp
qed

text \<open>
  Claim C10. On a node whose chain of child links is finite (following it \<open>m\<close> times
  falls off its end, for some \<open>m\<close>), \<open>descendant(k)\<close> with a negative \<open>k\<close> terminates
  and raises \<^verbatim>\<open>NoDescendantException\<close>: it never returns a node.
\<close>

theorem descendant_negative:
  assumes "closed h"
  shows "n < length h \<Longrightarrow> follow_child h m n = None \<Longrightarrow> k < 0 \<Longrightarrow>
     descendant h n k = Some (Inl NoDescendantException)"
proof (induction m arbitrary: n k)
  case 0
  then show ?case by simp
next
  case (Suc m)
  show ?case
  proof (cases "slot_child (h ! n)")
    case None
    then show ?thesis using Suc.prems
      by (subst descendant.simps) (simp add: child_def lookup_def)
  next
    case (Some c)
    then have c: "c < length h" using closed_child[OF assms Suc.prems(1)] by simp
    have "follow_child h m c = None"
      using Suc.prems(1,2) Some by (simp add: child_link_def lookup_def)
    then have "descendant h c (k - 1) = Some (Inl NoDescendantException)"
      using Suc.IH[OF c] Suc.prems(3) by simp
    then show ?thesis using Some Suc.prems
      by (subst descendant.simps) (simp add: child_def lookup_def)
  qed
qed

theorem descendant_negative_witness:
  "closed joined \<and> 0 < length joined \<and> follow_child joined 2 0 = None \<and> (- 3::int) < 0 \<and>
   descendant joined 0 (- 3) = Some (Inl NoDescendantException)"
proof -
  have n: "0 < length joined" by (simp add: joined_def)
  have two: "follow_child joined 2 0 = None"
    by (simp add: numeral_2_eq_2 child_link_def lookup_def joined_def)
  have neg: "(- 3::int) < 0" by simp
  from descendant_negative[OF closed_joined n two neg] closed_joined n two show ?thesis
    by simp
qed


lemma Node_init_nth:
  assumes "Node_init h hf enc a b = (h', Inr p)" and "k < length h"
  shows "h' ! k = (if k = a \<or> k = b then with_child p (h ! k) else h ! k)"
  using Node_init_Inr[OF assms(1)] assms(2)
  by (auto simp: nth_append nth_list_update)

lemma Node_init_length:
  assumes "Node_init h hf enc a b = (h', Inr p)"
  shows "length h' = Suc (length h) \<and> p = length h"
  using Node_init_Inr[OF assms] by auto

lemma Node_init_new:
  assumes "Node_init h hf enc a b = (h', Inr p)"
  shows "\<exists>d. pair hf (slot_digest (h ! a)) (slot_digest (h ! b)) = Inr d \<and>
             h' ! p = Node enc None d a b"
  using Node_init_Inr[OF assms]
  by (auto simp: nth_append nth_list_update)

lemma Node_init_digest:
  assumes "Node_init h hf enc a b = (h', Inr p)" and "k < length h"
  shows "digest h' k = digest h k"
  using Node_init_nth[OF assms] Node_init_length[OF assms(1)] assms(2)
  by (simp add: digest_def lookup_def)

lemma Node_init_I1_new:
  assumes "Node_init h hf enc a b = (h', Inr p)"
  shows "I1_at hf h' p"
proof -
  from Node_init_Inr[OF assms] have ab: "a < length h" "b < length h" and p: "p = length h"
    by auto
  from Node_init_new[OF assms] obtain d where
    d: "pair hf (slot_digest (h ! a)) (slot_digest (h ! b)) = Inr d" "h' ! p = Node enc None d a b"
    by blast
  have "digest h' a = Inr (slot_digest (h ! a))" "digest h' b = Inr (slot_digest (h ! b))"
    using Node_init_digest[OF assms] ab by (simp_all add: digest_def lookup_def)
  then show ?thesis
    using d p Node_init_length[OF assms] by (simp add: I1_at_def lookup_def)
qed

lemma Node_init_I1_old:
  assumes "Node_init h hf enc a b = (h', Inr p)" and "k < length h" and "I1_at hf h k"
  shows "I1_at hf h' k"
proof -
  from assms(3) obtain e c d l r where nd: "h ! k = Node e c d l r"
    by (auto simp: I1_at_def lookup_def split: option.splits node.splits if_splits)
  from assms(2,3) nd have lr: "l < length h" "r < length h"
    and eq: "pair hf (slot_digest (h ! l)) (slot_digest (h ! r)) = Inr d"
    by (auto simp: I1_at_def lookup_def digest_def split: if_splits sum.splits)
  have "\<exists>c'. h' ! k = Node e c' d l r"
    using Node_init_nth[OF assms(1,2)] nd by simp
  moreover have "digest h' l = Inr (slot_digest (h ! l))" "digest h' r = Inr (slot_digest (h ! r))"
    using Node_init_digest[OF assms(1)] lr by (simp_all add: digest_def lookup_def)
  ultimately show ?thesis
    using eq assms(2) Node_init_length[OF assms(1)] by (auto simp: I1_at_def lookup_def)
qed

lemma Node_init_I1:
  assumes "Node_init h hf enc a b = (h', Inr p)" and "I1 hf h"
  shows "I1 hf h'"
proof -
  have len: "length h' = Suc (length h)" "p = length h"
    using Node_init_length[OF assms(1)] by auto
  have "\<not> is_Node (h' ! k) \<or> I1_at hf h' k" if "k < length h'" for k
  proof (cases "k < length h")
    case True
    have "is_Node (h' ! k) = is_Node (h ! k)"
      using Node_init_nth[OF assms(1) True] by simp
    moreover have "\<not> is_Node (h ! k) \<or> I1_at hf h k"
      using assms(2) True by (simp add: I1_def list_all_iff)
    ultimately show ?thesis using Node_init_I1_old[OF assms(1) True] by blast
  next
    case False
    then have "k = p" using that len by simp
    then show ?thesis using Node_init_I1_new[OF assms(1)] by simp
  qed
  then show ?thesis by (simp add: I1_def list_all_iff)
qed

lemma recalculate_hash_I1:
  assumes "recalculate_hash h n hf = (h', Inr ())"
    and "left h n \<noteq> Inr n" and "right h n \<noteq> Inr n"
  shows "I1_at hf h' n \<and> left h' n = left h n \<and> right h' n = right h n"
  using assms
  by (auto simp: recalculate_hash_def I1_at_def left_def right_def digest_def lookup_def
           split: option.splits node.splits sum.splits if_splits)

lemma recalculate_hash_Inr:
  assumes "recalculate_hash g n hf = (g', Inr ())"
  shows "\<exists>e c d l r d'. n < length g \<and> g ! n = Node e c d l r \<and> l < length g \<and> r < length g \<and>
           pair hf (slot_digest (g ! l)) (slot_digest (g ! r)) = Inr d' \<and>
           g' = g[n := Node e c d' l r]"
proof -
  from assms obtain e c d l r where nd: "lookup g n = Some (Node e c d l r)"
    by (auto simp: recalculate_hash_def split: option.splits node.splits)
  from assms nd obtain dl where dl: "digest g l = Inr dl"
    by (cases "digest g l") (auto simp: recalculate_hash_def)
  from assms nd dl obtain dr where dr: "digest g r = Inr dr"
    by (cases "digest g r") (auto simp: recalculate_hash_def)
  from assms nd dl dr obtain d' where d': "pair hf dl dr = Inr d'"
    by (cases "pair hf dl dr") (auto simp: recalculate_hash_def)
  from assms nd dl dr d' have "g' = g[n := Node e c d' l r]"
    by (simp add: recalculate_hash_def)
  moreover from nd have "n < length g" "g ! n = Node e c d l r"
    by (simp_all add: lookup_Some_iff)
  moreover from dl dr have "l < length g" "r < length g"
    "slot_digest (g ! l) = dl" "slot_digest (g ! r) = dr"
    by (simp_all add: digest_Inr_iff)
  ultimately show ?thesis using d' by blast
qed

lemma recalculate_hash_digest:
  assumes "recalculate_hash g n hf = (g', Inr ())"
  shows "\<exists>l r dl dr d'. left g n = Inr l \<and> right g n = Inr r \<and>
           digest g l = Inr dl \<and> digest g r = Inr dr \<and> pair hf dl dr = Inr d' \<and>
           digest g' n = Inr d' \<and> left g' n = Inr l \<and> right g' n = Inr r"
proof -
  from recalculate_hash_Inr[OF assms] obtain e c d l r d' where
    n: "n < length g" "g ! n = Node e c d l r" and lr: "l < length g" "r < length g"
    and d': "pair hf (slot_digest (g ! l)) (slot_digest (g ! r)) = Inr d'"
    and g': "g' = g[n := Node e c d' l r]"
    by blast
  have "left g n = Inr l" "right g n = Inr r"
    using n by (simp_all add: left_def right_def lookup_def)
  moreover have "digest g l = Inr (slot_digest (g ! l))" "digest g r = Inr (slot_digest (g ! r))"
    using lr by (simp_all add: digest_def lookup_def)
  moreover have "digest g' n = Inr d'" "left g' n = Inr l" "right g' n = Inr r"
    using n g' by (simp_all add: digest_def left_def right_def lookup_def)
  ultimately show ?thesis using d' by blast
qed

text \<open>
  Closed stores are the stores that runs of the module produce: the empty store is
  closed, and every operation keeps a store closed.
\<close>

lemma refs_ok_mono: "refs_ok m nd \<Longrightarrow> m \<le> m' \<Longrightarrow> refs_ok m' nd"
  by (cases nd) (auto split: option.splits)

lemma refs_ok_with_child: "refs_ok m nd \<Longrightarrow> p < m \<Longrightarrow> refs_ok m (with_child p nd)"
  by (cases nd) auto

lemma closed_append:
  assumes "closed h" and "refs_ok (Suc (length h)) nd"
  shows "closed (h @ [nd])"
  using assms by (auto simp: closed_def list_all_iff intro: refs_ok_mono)

lemma closed_update:
  assumes "closed h" and "refs_ok (length h) nd"
  shows "closed (h[n := nd])"
  using assms by (auto simp: closed_def list_all_iff dest!: set_update_subset_insert[THEN subsetD])

lemma closed_nth: "closed h \<Longrightarrow> n < length h \<Longrightarrow> refs_ok (length h) (h ! n)"
  by (simp add: closed_def list_all_length)

lemma closed_Node_init:
  assumes "closed h" and "Node_init h hf enc a b = (h', res)"
  shows "closed h'"
proof (cases res)
  case (Inl e)
  then have "h' = h" using assms(2)
    by (auto simp: Node_init_def Let_def split: sum.splits)
  then show ?thesis using assms(1) by simp
next
  case (Inr p)
  from Node_init_Inr[OF assms(2)[unfolded Inr]] obtain d where
    ab: "a < length h" "b < length h" and
    h': "h' = ((h @ [Node enc None d a b])[a := with_child (length h) (h ! a)])
                   [b := with_child (length h)
                     (((h @ [Node enc None d a b])[a := with_child (length h) (h ! a)]) ! b)]"
    by blast
  let ?h1 = "h @ [Node enc None d a b]"
  let ?h2 = "?h1[a := with_child (length h) (h ! a)]"
  have c1: "closed ?h1" using assms(1) ab by (intro closed_append) simp_all
  have "refs_ok (length ?h1) (with_child (length h) (h ! a))"
    using closed_nth[OF assms(1) ab(1)]
    by (intro refs_ok_with_child) (auto intro: refs_ok_mono)
  then have c2: "closed ?h2" using closed_update[OF c1] by simp
  have "refs_ok (length ?h2) (with_child (length h) (?h2 ! b))"
    using closed_nth[OF c2, of b] ab(2) by (intro refs_ok_with_child) simp_all
  then show ?thesis using closed_update[OF c2] h' by simp
qed

lemma closed_exec:
  assumes "closed h" and "op_refs_ok h x"
  shows "closed (exec cd h x)"
proof (cases x)
  case (NewLeaf hf enc rcd dig)
  then show ?thesis using assms(1)
    by (auto simp: Leaf_init_def split: sum.splits intro!: closed_append)
next
  case (NewNode hf enc l r)
  then show ?thesis
    using closed_Node_init[OF assms(1), of hf enc l r] by (cases "Node_init h hf enc l r") simp
next
  case (SetChild n c)
  then show ?thesis using assms closed_nth[OF assms(1), of n]
    by (auto simp: set_child_def intro!: closed_update refs_ok_with_child)
next
  case (SetLeft n l)
  then show ?thesis using assms closed_nth[OF assms(1), of n]
    by (auto simp: set_left_def lookup_def split: if_splits node.splits intro!: closed_update)
next
  case (SetRight n r)
  then show ?thesis using assms closed_nth[OF assms(1), of n]
    by (auto simp: set_right_def lookup_def split: if_splits node.splits intro!: closed_update)
next
  case (Recalculate n hf)
  then show ?thesis using assms closed_nth[OF assms(1), of n]
    by (auto simp: recalculate_hash_def lookup_def
        split: if_splits node.splits sum.splits intro!: closed_update)
qed

lemma closed_empty: "closed []"
  by (simp add: closed_def)

lemma left_right_Node:
  assumes "left g n = Inr l" and "right g n = Inr r"
  shows "\<exists>e c d. n < length g \<and> g ! n = Node e c d l r"
  using assms
  by (auto simp: left_def right_def lookup_def split: if_splits option.splits node.splits)

lemma recalculate_hash_returns:
  assumes "left g n = Inr l" and "right g n = Inr r"
    and "digest g l = Inr dl" and "digest g r = Inr dr" and "pair hf dl dr = Inr d'"
  shows "\<exists>g'. recalculate_hash g n hf = (g', Inr ())"
proof -
  from left_right_Node[OF assms(1,2)] obtain e c d where
    "n < length g" "g ! n = Node e c d l r" by blast
  then have "recalculate_hash g n hf = (g[n := Node e c d' l r], Inr ())"
    using assms(3-5) by (simp add: recalculate_hash_def lookup_def)
  then show ?thesis by blast
qed

lemma recalculate_hash_total:
  assumes "left g n = Inr l" and "right g n = Inr r"
    and "digest g l = Inr dl" and "digest g r = Inr dr" and "pair hf dl dr = Inr d'"
  shows "\<exists>g'. recalculate_hash g n hf = (g', Inr ()) \<and> digest g' n = Inr d' \<and>
           left g' n = Inr l \<and> right g' n = Inr r \<and> (l \<noteq> n \<and> r \<noteq> n \<longrightarrow> I1_at hf g' n)"
proof -
  from recalculate_hash_returns[OF assms] obtain g' where
    g': "recalculate_hash g n hf = (g', Inr ())" by blast
  from recalculate_hash_digest[OF g'] assms
  have a: "digest g' n = Inr d' \<and> left g' n = Inr l \<and> right g' n = Inr r" by auto
  have "I1_at hf g' n" if "l \<noteq> n \<and> r \<noteq> n"
    using recalculate_hash_I1[OF g'] that assms(1,2) by auto
  then show ?thesis using g' a by blast
qed

lemma set_right_total:
  assumes "left g n = Inr l" and "right g n = Inr r"
  shows "\<exists>g1. set_right g n b = (g1, Inr ()) \<and> left g1 n = Inr l \<and> right g1 n = Inr b \<and>
           (\<forall>k. k \<noteq> n \<longrightarrow> digest g1 k = digest g k)"
proof -
  from left_right_Node[OF assms] obtain e c d where
    n: "n < length g" "g ! n = Node e c d l r" by blast
  then have "set_right g n b = (g[n := Node e c d l b], Inr ())"
    by (simp add: set_right_def lookup_def)
  then show ?thesis using n
    by (auto simp: left_def right_def digest_def lookup_def)
qed

lemma set_left_total:
  assumes "left g n = Inr l" and "right g n = Inr r"
  shows "\<exists>g1. set_left g n a = (g1, Inr ()) \<and> left g1 n = Inr a \<and> right g1 n = Inr r \<and>
           (\<forall>k. k \<noteq> n \<longrightarrow> digest g1 k = digest g k)"
proof -
  from left_right_Node[OF assms] obtain e c d where
    n: "n < length g" "g ! n = Node e c d l r" by blast
  then have "set_left g n a = (g[n := Node e c d a r], Inr ())"
    by (simp add: set_left_def lookup_def)
  then show ?thesis using n
    by (auto simp: left_def right_def digest_def lookup_def)
qed

lemma repoint_right_I1:
  assumes "left g n = Inr l" and "right g n = Inr r"
    and "digest g l = Inr dl" and "digest g b = Inr db" and "pair hf dl db = Inr d'"
    and "l \<noteq> n" and "b \<noteq> n"
  shows "\<exists>g1 g2. set_right g n b = (g1, Inr ()) \<and> recalculate_hash g1 n hf = (g2, Inr ()) \<and>
           left g2 n = Inr l \<and> right g2 n = Inr b \<and> digest g2 n = Inr d' \<and> I1_at hf g2 n"
proof -
  from set_right_total[OF assms(1,2), of b] obtain g1 where
    g1: "set_right g n b = (g1, Inr ())" "left g1 n = Inr l" "right g1 n = Inr b"
    and same: "\<forall>k. k \<noteq> n \<longrightarrow> digest g1 k = digest g k" by blast
  have "digest g1 l = Inr dl" "digest g1 b = Inr db"
    using same assms(3,4,6,7) by simp_all
  from recalculate_hash_total[OF g1(2,3) this assms(5)] assms(6,7) g1(1) show ?thesis
    by blast
qed

lemma repoint_left_I1:
  assumes "left g n = Inr l" and "right g n = Inr r"
    and "digest g a = Inr da" and "digest g r = Inr dr" and "pair hf da dr = Inr d'"
    and "a \<noteq> n" and "r \<noteq> n"
  shows "\<exists>g1 g2. set_left g n a = (g1, Inr ()) \<and> recalculate_hash g1 n hf = (g2, Inr ()) \<and>
           left g2 n = Inr a \<and> right g2 n = Inr r \<and> digest g2 n = Inr d' \<and> I1_at hf g2 n"
proof -
  from set_left_total[OF assms(1,2), of a] obtain g1 where
    g1: "set_left g n a = (g1, Inr ())" "left g1 n = Inr a" "right g1 n = Inr r"
    and same: "\<forall>k. k \<noteq> n \<longrightarrow> digest g1 k = digest g k" by blast
  have "digest g1 a = Inr da" "digest g1 r = Inr dr"
    using same assms(3,4,6,7) by simp_all
  from recalculate_hash_total[OF g1(2,3) this assms(5)] assms(6,7) g1(1) show ?thesis
    by blast
qed

lemma Node_init_total:
  assumes "digest h a = Inr da" and "digest h b = Inr db" and "pair hf da db = Inr d"
  shows "\<exists>h' p. Node_init h hf enc a b = (h', Inr p) \<and> digest h' p = Inr d \<and>
           I1_at hf h' p \<and> (I1 hf h \<longrightarrow> I1 hf h')"
proof -
  from Node_init_returns[OF assms] obtain h' where
    h': "Node_init h hf enc a b = (h', Inr (length h))" by blast
  from Node_init_Inr[OF h'] Node_init_new[OF h'] Node_init_length[OF h'] assms
  have "digest h' (length h) = Inr d"
    by (auto simp: digest_def lookup_def)
  then show ?thesis using h' Node_init_I1_new[OF h'] Node_init_I1[OF h'] by blast
qed

text \<open>
  Claim C1 (invariant I1). Whenever the digests of \<open>a\<close> and \<open>b\<close> can be read and
  hashed, constructing an internal node from them returns a node whose digest is
  \<open>H(a.digest, b.digest)\<close>: I1 holds at the new node and stays at every internal node
  where it held. Whenever the digests of the nodes that the current left and right links
  of an internal node point to can be read and hashed, \<open>recalculate_hash\<close> returns,
  stores that hash and leaves the links as they are: this restores I1 at the node, its
  links pointing to other nodes than the node itself (as they do in a tree). In
  particular, re-pointing the right link (or the left link) with \<open>set_right\<close>
  (\<open>set_left\<close>) and recalculating gives I1 at the node for the new link. Conversely,
  a construction or recalculation that returns has read and hashed these digests.
\<close>

theorem I1_established:
  "(digest h a = Inr da \<and> digest h b = Inr db \<and> pair hf da db = Inr d \<longrightarrow>
      (\<exists>h' p. Node_init h hf enc a b = (h', Inr p) \<and> digest h' p = Inr d \<and>
         I1_at hf h' p \<and> (I1 hf h \<longrightarrow> I1 hf h'))) \<and>
   (left g n = Inr l \<and> right g n = Inr r \<and>
    digest g l = Inr dl \<and> digest g r = Inr dr \<and> pair hf dl dr = Inr d' \<longrightarrow>
      (\<exists>g'. recalculate_hash g n hf = (g', Inr ()) \<and> digest g' n = Inr d' \<and>
         left g' n = Inr l \<and> right g' n = Inr r \<and> (l \<noteq> n \<and> r \<noteq> n \<longrightarrow> I1_at hf g' n))) \<and>
   (left g n = Inr l \<and> right g n = Inr r \<and>
    digest g l = Inr dl \<and> digest g y = Inr dy \<and> pair hf dl dy = Inr v \<and> l \<noteq> n \<and> y \<noteq> n \<longrightarrow>
      (\<exists>g1 g2. set_right g n y = (g1, Inr ()) \<and> recalculate_hash g1 n hf = (g2, Inr ()) \<and>
         left g2 n = Inr l \<and> right g2 n = Inr y \<and> digest g2 n = Inr v \<and> I1_at hf g2 n)) \<and>
   (left g n = Inr l \<and> right g n = Inr r \<and>
    digest g x = Inr dx \<and> digest g r = Inr dr \<and> pair hf dx dr = Inr w \<and> x \<noteq> n \<and> r \<noteq> n \<longrightarrow>
      (\<exists>g1 g2. set_left g n x = (g1, Inr ()) \<and> recalculate_hash g1 n hf = (g2, Inr ()) \<and>
         left g2 n = Inr x \<and> right g2 n = Inr r \<and> digest g2 n = Inr w \<and> I1_at hf g2 n)) \<and>
   (Node_init h hf enc a b = (s, Inr p) \<longrightarrow>
      (\<exists>da db d. digest h a = Inr da \<and> digest h b = Inr db \<and> pair hf da db = Inr d \<and>
                 digest s p = Inr d) \<and>
      I1_at hf s p \<and> (I1 hf h \<longrightarrow> I1 hf s)) \<and>
   (recalculate_hash g n hf = (t, Inr ()) \<longrightarrow>
      (\<exists>l r dl dr d'. left g n = Inr l \<and> right g n = Inr r \<and>
           digest g l = Inr dl \<and> digest g r = Inr dr \<and> pair hf dl dr = Inr d' \<and>
           digest t n = Inr d' \<and> left t n = Inr l \<and> right t n = Inr r) \<and>
      (left g n \<noteq> Inr n \<and> right g n \<noteq> Inr n \<longrightarrow> I1_at hf t n))"
proof (intro conjI impI)
  assume "digest h a = Inr da \<and> digest h b = Inr db \<and> pair hf da db = Inr d"
  then show "\<exists>h' p. Node_init h hf enc a b = (h', Inr p) \<and> digest h' p = Inr d \<and>
         I1_at hf h' p \<and> (I1 hf h \<longrightarrow> I1 hf h')"
    using Node_init_total by blast
next
  assume "left g n = Inr l \<and> right g n = Inr r \<and>
    digest g l = Inr dl \<and> digest g r = Inr dr \<and> pair hf dl dr = Inr d'"
  then show "\<exists>g'. recalculate_hash g n hf = (g', Inr ()) \<and> digest g' n = Inr d' \<and>
         left g' n = Inr l \<and> right g' n = Inr r \<and> (l \<noteq> n \<and> r \<noteq> n \<longrightarrow> I1_at hf g' n)"
    using recalculate_hash_total by blast
next
  assume "left g n = Inr l \<and> right g n = Inr r \<and>
    digest g l = Inr dl \<and> digest g y = Inr dy \<and> pair hf dl dy = Inr v \<and> l \<noteq> n \<and> y \<noteq> n"
  then show "\<exists>g1 g2. set_right g n y = (g1, Inr ()) \<and> recalculate_hash g1 n hf = (g2, Inr ()) \<and>
         left g2 n = Inr l \<and> right g2 n = Inr y \<and> digest g2 n = Inr v \<and> I1_at hf g2 n"
    using repoint_right_I1[of g n l r dl y dy hf v] by blast
next
  assume "left g n = Inr l \<and> right g n = Inr r \<and>
    digest g x = Inr dx \<and> digest g r = Inr dr \<and> pair hf dx dr = Inr w \<and> x \<noteq> n \<and> r \<noteq> n"
  then show "\<exists>g1 g2. set_left g n x = (g1, Inr ()) \<and> recalculate_hash g1 n hf = (g2, Inr ()) \<and>
         left g2 n = Inr x \<and> right g2 n = Inr r \<and> digest g2 n = Inr w \<and> I1_at hf g2 n"
    using repoint_left_I1[of g n l r x dx dr hf w] by blast
next
  assume a: "Node_init h hf enc a b = (s, Inr p)"
  from Node_init_Inr[OF a] Node_init_new[OF a] Node_init_length[OF a]
  show "\<exists>da db d. digest h a = Inr da \<and> digest h b = Inr db \<and> pair hf da db = Inr d \<and>
                 digest s p = Inr d"
    by (auto simp: digest_def lookup_def)
  show "I1_at hf s p" by (rule Node_init_I1_new[OF a])
  show "I1 hf s" if "I1 hf h" by (rule Node_init_I1[OF a that])
next
  assume r: "recalculate_hash g n hf = (t, Inr ())"
  show "\<exists>l r dl dr d'. left g n = Inr l \<and> right g n = Inr r \<and>
           digest g l = Inr dl \<and> digest g r = Inr dr \<and> pair hf dl dr = Inr d' \<and>
           digest t n = Inr d' \<and> left t n = Inr l \<and> right t n = Inr r"
    by (rule recalculate_hash_digest[OF r])
  show "I1_at hf t n" if "left g n \<noteq> Inr n \<and> right g n \<noteq> Inr n"
    using recalculate_hash_I1[OF r] that by blast
qed

theorem I1_established_witness:
  "digest two_leaves 0 = Inr [1] \<and> digest two_leaves 1 = Inr [2] \<and>
   pair concat_hash [1] [2] = Inr [1, 2] \<and>
   Node_init two_leaves concat_hash [] 0 1 = (joined, Inr 2) \<and>
   digest joined 2 = Inr [1, 2] \<and> I1_at concat_hash joined 2 \<and>
   I1 concat_hash two_leaves \<and> I1 concat_hash joined \<and>
   left grown 2 = Inr 0 \<and> right grown 2 = Inr 1 \<and>
   digest grown 0 = Inr [1] \<and> digest grown 1 = Inr [2] \<and> digest grown 3 = Inr [3] \<and>
   pair concat_hash [1] [3] = Inr [1, 3] \<and> pair concat_hash [3] [2] = Inr [3, 2] \<and>
   set_right grown 2 3 = (repointed, Inr ()) \<and>
   left repointed 2 = Inr 0 \<and> right repointed 2 = Inr 3 \<and>
   digest repointed 2 = Inr [1, 2] \<and>
   recalculate_hash repointed 2 concat_hash = (recalculated, Inr ()) \<and>
   left recalculated 2 = Inr 0 \<and> right recalculated 2 = Inr 3 \<and>
   digest recalculated 2 = Inr [1, 3] \<and> I1_at concat_hash recalculated 2 \<and>
   (\<exists>g1 g2. set_left grown 2 3 = (g1, Inr ()) \<and>
      recalculate_hash g1 2 concat_hash = (g2, Inr ()) \<and>
      left g2 2 = Inr 3 \<and> right g2 2 = Inr 1 \<and> digest g2 2 = Inr [3, 2] \<and>
      I1_at concat_hash g2 2)"
proof -
  have d2: "digest two_leaves 0 = Inr [1]" "digest two_leaves 1 = Inr [2]"
    by (simp_all add: digest_def lookup_def two_leaves_def)
  have p12: "pair concat_hash [1] [2] = Inr [1, 2]"
    and p13: "pair concat_hash [1] [3] = Inr [1, 3]"
    and p32: "pair concat_hash [3] [2] = Inr [3, 2]"
    by (simp_all add: concat_hash_def)
  have run: "Node_init two_leaves concat_hash [] 0 1 = (joined, Inr 2)"
    by (simp add: Node_init_def Let_def digest_def lookup_def two_leaves_def joined_def
        concat_hash_def)
  have inv: "I1 concat_hash two_leaves"
    by (simp add: I1_def two_leaves_def upt_rec)
  have lg: "left grown 2 = Inr 0" "right grown 2 = Inr 1"
    by (simp_all add: left_def right_def lookup_def grown_def)
  have dg: "digest grown 0 = Inr [1]" "digest grown 1 = Inr [2]" "digest grown 3 = Inr [3]"
    by (simp_all add: digest_def lookup_def grown_def)
  have sr: "set_right grown 2 3 = (repointed, Inr ())"
    by (simp add: set_right_def lookup_def grown_def repointed_def)
  have lr: "left repointed 2 = Inr 0" "right repointed 2 = Inr 3"
    by (simp_all add: left_def right_def lookup_def repointed_def)
  have dr: "digest repointed 0 = Inr [1]" "digest repointed 3 = Inr [3]"
    "digest repointed 2 = Inr [1, 2]"
    by (simp_all add: digest_def lookup_def repointed_def)
  have rc: "recalculate_hash repointed 2 concat_hash = (recalculated, Inr ())"
    by (simp add: recalculate_hash_def digest_def lookup_def repointed_def recalculated_def
        concat_hash_def)
  note total = I1_established[of two_leaves 0 "[1]" 1 "[2]" concat_hash "[1, 2]" "[]"
      repointed 2 0 3 "[1]" "[3]" "[1, 3]"]
  from total d2 p12 run
  have n1: "digest joined 2 = Inr [1, 2] \<and> I1_at concat_hash joined 2 \<and>
      (I1 concat_hash two_leaves \<longrightarrow> I1 concat_hash joined)"
    by auto
  from total lr dr p13 rc
  have n2: "digest recalculated 2 = Inr [1, 3] \<and> left recalculated 2 = Inr 0 \<and>
      right recalculated 2 = Inr 3 \<and> I1_at concat_hash recalculated 2"
    by auto
  from I1_established[of _ _ _ _ _ concat_hash _ _ grown 2 0 1 "[1]" "[2]" _ 3 "[3]" "[1, 3]"]
    lg dg p13 sr rc
  have n3: "I1_at concat_hash recalculated 2"
    by auto
  from I1_established[of _ _ _ _ _ concat_hash _ _ grown 2 0 1 _ "[2]" _ _ _ _ 3 "[3]" "[3, 2]"]
    lg dg p32
  have n4: "\<exists>g1 g2. set_left grown 2 3 = (g1, Inr ()) \<and>
      recalculate_hash g1 2 concat_hash = (g2, Inr ()) \<and>
      left g2 2 = Inr 3 \<and> right g2 2 = Inr 1 \<and> digest g2 2 = Inr [3, 2] \<and>
      I1_at concat_hash g2 2"
    by simp
  from I1_established[of two_leaves 0 _ 1 _ concat_hash _ "[]" repointed 2 _ _ _ _ _ _ _ _
      _ _ _ joined 2 recalculated] run rc lr
  have n5: "I1_at concat_hash joined 2 \<and> I1_at concat_hash recalculated 2"
    by simp
  show ?thesis
    using d2 p12 p13 p32 run inv lg dg sr lr dr(3) rc n1 n2 n3 n4 n5 by simp
qed

lemma exec_Leaf:
  assumes "lookup h a = Some (Leaf e c d)"
  shows "\<exists>c'. lookup (exec cd h x) a = Some (Leaf e c' d)"
proof (cases x)
  case (NewLeaf hf enc rcd dig)
  then show ?thesis using assms
    by (auto simp: Leaf_init_def lookup_def nth_append split: sum.splits if_splits)
next
  case (NewNode hf enc l r)
  show ?thesis
  proof (cases "Node_init h hf enc l r")
    case (Pair h' res)
    show ?thesis
    proof (cases res)
      case (Inl err)
      then have "h' = h" using Pair
        by (auto simp: Node_init_def Let_def split: sum.splits)
      then show ?thesis using assms NewNode Pair by simp
    next
      case (Inr p)
      from assms have a: "a < length h" "h ! a = Leaf e c d"
        by (auto simp: lookup_def split: if_splits)
      have "h' ! a = (if a = l \<or> a = r then with_child p (h ! a) else h ! a)"
        using Node_init_nth[of h hf enc l r h' p a] Pair Inr a by simp
      moreover have "length h' = Suc (length h)"
        using Node_init_length[of h hf enc l r h' p] Pair Inr by simp
      ultimately show ?thesis using a NewNode Pair by (auto simp: lookup_def)
    qed
  qed
next
  case (SetChild n c')
  then show ?thesis using assms
    by (auto simp: set_child_def lookup_def nth_list_update split: if_splits)
next
  case (SetLeft n l)
  then show ?thesis using assms
    by (auto simp: set_left_def lookup_def nth_list_update split: if_splits node.splits)
next
  case (SetRight n r)
  then show ?thesis using assms
    by (auto simp: set_right_def lookup_def nth_list_update split: if_splits node.splits)
next
  case (Recalculate n hf)
  then show ?thesis using assms
    by (auto simp: recalculate_hash_def lookup_def nth_list_update
             split: if_splits node.splits sum.splits)
qed

lemma exec_all_Leaf:
  "lookup h a = Some (Leaf e c d) \<Longrightarrow> \<exists>c'. lookup (exec_all cd h xs) a = Some (Leaf e c' d)"
proof (induction xs arbitrary: h c)
  case Nil
  then show ?case by simp
next
  case (Cons x xs)
  from exec_Leaf[OF Cons.prems] obtain c' where "lookup (exec cd h x) a = Some (Leaf e c' d)"
    by blast
  from Cons.IH[OF this] show ?case by simp
qed

text \<open>
  Claim C9. In every store, the constructor called with a non-empty record alone, for
  which the hash function returns, builds a leaf that stores the digest returned; called
  with a non-empty digest alone, which \<^verbatim>\<open>bytes(digest, encoding)\<close> accepts, it builds a
  leaf that stores that digest, as the \<^verbatim>\<open>bytes\<close> of the given text in the leaf's
  encoding. Conversely a leaf that has been built stores one of the two. The digest of a
  leaf stays what it is under every sequence of operations of the module.
\<close>

theorem Leaf_digest_fixed:
  "(truthy rcd \<and> single hf rcd = Inr v \<longrightarrow>
      Leaf_init cd h hf enc rcd PyNone = (h @ [Leaf enc None v], Inr (length h)) \<and>
      digest (h @ [Leaf enc None v]) (length h) = Inr v) \<and>
   (truthy dig \<and> py_bytes cd dig enc = Inr w \<longrightarrow>
      Leaf_init cd h hf enc PyNone dig = (h @ [Leaf enc None w], Inr (length h)) \<and>
      digest (h @ [Leaf enc None w]) (length h) = Inr w) \<and>
   (Leaf_init cd h hf enc rcd PyNone = (h', Inr a) \<longrightarrow>
      (\<exists>d. single hf rcd = Inr d \<and> digest h' a = Inr d)) \<and>
   (Leaf_init cd h hf enc PyNone dig = (h', Inr a) \<longrightarrow>
      (\<exists>d. py_bytes cd dig enc = Inr d \<and> digest h' a = Inr d)) \<and>
   (lookup g b = Some (Leaf e c d) \<longrightarrow> digest (exec_all cd g xs) b = Inr d)"
proof (intro conjI impI)
  assume "truthy rcd \<and> single hf rcd = Inr v"
  then show "Leaf_init cd h hf enc rcd PyNone = (h @ [Leaf enc None v], Inr (length h))"
    by (simp add: Leaf_init_def)
  show "digest (h @ [Leaf enc None v]) (length h) = Inr v"
    by (simp add: digest_def lookup_def)
next
  assume a: "truthy dig \<and> py_bytes cd dig enc = Inr w"
  then have "dig \<noteq> PyNone" by auto
  then show "Leaf_init cd h hf enc PyNone dig = (h @ [Leaf enc None w], Inr (length h))"
    using a by (simp add: Leaf_init_def)
  show "digest (h @ [Leaf enc None w]) (length h) = Inr w"
    by (simp add: digest_def lookup_def)
next
  assume "Leaf_init cd h hf enc rcd PyNone = (h', Inr a)"
  then show "\<exists>d. single hf rcd = Inr d \<and> digest h' a = Inr d"
    by (auto simp: Leaf_init_def digest_def lookup_def split: if_splits sum.splits)
next
  assume "Leaf_init cd h hf enc PyNone dig = (h', Inr a)"
  then show "\<exists>d. py_bytes cd dig enc = Inr d \<and> digest h' a = Inr d"
    by (auto simp: Leaf_init_def digest_def lookup_def split: if_splits sum.splits)
next
  assume "lookup g b = Some (Leaf e c d)"
  from exec_all_Leaf[OF this, of cd xs] show "digest (exec_all cd g xs) b = Inr d"
    by (auto simp: digest_def)
qed

theorem Leaf_digest_fixed_witness:
  "truthy (PyBytes [1]) \<and> single concat_hash (PyBytes [1]) = Inr [1] \<and>
   Leaf_init ascii_codec joined concat_hash ascii_name (PyBytes [1]) PyNone =
     (joined @ [Leaf ascii_name None [1]], Inr 3) \<and>
   digest (joined @ [Leaf ascii_name None [1]]) 3 = Inr [1] \<and>
   truthy (PyStr [50, 97]) \<and> py_bytes ascii_codec (PyStr [50, 97]) ascii_name = Inr [50, 97] \<and>
   Leaf_init ascii_codec joined concat_hash ascii_name PyNone (PyStr [50, 97]) =
     (joined @ [Leaf ascii_name None [50, 97]], Inr 3) \<and>
   digest (joined @ [Leaf ascii_name None [50, 97]]) 3 = Inr [50, 97] \<and>
   lookup joined 0 = Some (Leaf [] (Some 2) [1]) \<and>
   digest (exec_all ascii_codec joined
             [SetChild 0 1, Recalculate 0 concat_hash, SetLeft 0 1,
              NewNode concat_hash ascii_name 0 2,
              NewLeaf concat_hash ascii_name PyNone (PyStr [50, 97])]) 0 =
     Inr [1]"
proof -
  have r: "truthy (PyBytes [1]) \<and> single concat_hash (PyBytes [1]) = Inr [1]"
    by (simp add: concat_hash_def)
  have d: "truthy (PyStr [50, 97]) \<and>
      py_bytes ascii_codec (PyStr [50, 97]) ascii_name = Inr [50, 97]"
    by (simp add: ascii_codec_def)
  have len: "length joined = 3" by (simp add: joined_def)
  have c: "lookup joined 0 = Some (Leaf [] (Some 2) [1])"
    by (simp add: lookup_def joined_def)
  note inst = Leaf_digest_fixed[of "PyBytes [1]" concat_hash "[1]" ascii_codec joined
      ascii_name "PyStr [50, 97]" "[50, 97]" _ _ joined 0 "[]" "Some 2" "[1]"]
  from inst r len
  have a: "Leaf_init ascii_codec joined concat_hash ascii_name (PyBytes [1]) PyNone =
      (joined @ [Leaf ascii_name None [1]], Inr 3) \<and>
      digest (joined @ [Leaf ascii_name None [1]]) 3 = Inr [1]"
    by simp
  from inst d len
  have b: "Leaf_init ascii_codec joined concat_hash ascii_name PyNone (PyStr [50, 97]) =
      (joined @ [Leaf ascii_name None [50, 97]], Inr 3) \<and>
      digest (joined @ [Leaf ascii_name None [50, 97]]) 3 = Inr [50, 97]"
    by simp
  from inst c
  have e: "digest (exec_all ascii_codec joined
             [SetChild 0 1, Recalculate 0 concat_hash, SetLeft 0 1,
              NewNode concat_hash ascii_name 0 2,
              NewLeaf concat_hash ascii_name PyNone (PyStr [50, 97])]) 0 =
     Inr [1]" by blast
  show ?thesis using r d a b c e by simp
qed

section \<open>Properties of the tree, the audit proofs and the verifier\<close>

lemma replay_append: "replay cfg acc (xs @ ys) = replay cfg (replay cfg acc xs) ys"
  by (induction cfg acc xs rule: replay.induct) simp_all

lemma length_leaves: "length (leaves t) = leaf_count t"
  by (induction t) simp_all

lemma leaf_count_pos: "0 < leaf_count t"
  by (induction t) simp_all

lemma subtree_path_start:
  "i < leaf_count t \<Longrightarrow> fst (subtree_path t i) = leaves t ! i"
proof (induction t arbitrary: i)
  case (MLeaf d)
  then show ?case by simp
next
  case (MNode d l r)
  show ?case
  proof (cases "i < leaf_count l")
    case True
    then show ?thesis using MNode.IH(1)[of i]
      by (auto simp: nth_append length_leaves split: prod.splits)
  next
    case False
    then have "i - leaf_count l < leaf_count r" using MNode.prems by simp
    then show ?thesis using MNode.IH(2)[of "i - leaf_count l"] False
      by (auto simp: nth_append length_leaves split: prod.splits)
  qed
qed

lemma subtree_path_replay:
  "digests_ok cfg t \<Longrightarrow> i < leaf_count t \<Longrightarrow>
   replay cfg (fst (subtree_path t i)) (snd (subtree_path t i)) = root_digest t"
proof (induction t arbitrary: i)
  case (MLeaf d)
  then show ?case by simp
next
  case (MNode d l r)
  show ?case
  proof (cases "i < leaf_count l")
    case True
    then have "replay cfg (fst (subtree_path l i)) (snd (subtree_path l i)) = root_digest l"
      using MNode.IH(1) MNode.prems(1) by simp
    then show ?thesis using True MNode.prems(1)
      by (auto simp: replay_append split: prod.splits)
  next
    case False
    then have "i - leaf_count l < leaf_count r" using MNode.prems by simp
    then have "replay cfg (fst (subtree_path r (i - leaf_count l)))
        (snd (subtree_path r (i - leaf_count l))) = root_digest r"
      using MNode.IH(2) MNode.prems(1) by simp
    then show ?thesis using False MNode.prems(1)
      by (auto simp: replay_append split: prod.splits)
  qed
qed

lemma fold_root_Cons:
  "fold_root cfg zs = Some t \<Longrightarrow> fold_root cfg (x # zs) = Some (join cfg x t)"
  by (cases zs) simp_all

lemma root_digest_join [simp]:
  "root_digest (join cfg l r) = engine_digest2 cfg (root_digest l) (root_digest r)"
  by (simp add: join_def)

lemma fold_root_split:
  "\<exists>t. fold_root cfg (lefts @ p # rights) = Some t \<and>
       root_digest t = replay cfg (root_digest p) (fold_sequence cfg lefts rights)"
proof (induction lefts)
  case Nil
  then show ?case by (cases rights) (simp_all add: fold_sequence_def)
next
  case (Cons x xs)
  then obtain t where t: "fold_root cfg (xs @ p # rights) = Some t"
    and d: "root_digest t = replay cfg (root_digest p) (fold_sequence cfg xs rights)"
    by blast
  have "fold_sequence cfg (x # xs) rights = fold_sequence cfg xs rights @ [(Minus, root_digest x)]"
    by (simp add: fold_sequence_def)
  then have "root_digest (join cfg x t) =
      replay cfg (root_digest p) (fold_sequence cfg (x # xs) rights)"
    using d by (simp add: replay_append)
  then show ?case using fold_root_Cons[OF t, of x] by simp
qed

lemma audit_path_ok:
  "list_all (digests_ok cfg) rights \<Longrightarrow> i < sum_list (map leaf_count rights) \<Longrightarrow>
   \<exists>s rest t. audit_path cfg lefts rights i = Some ((Plus, s) # rest) \<and>
     s = concat (map leaves rights) ! i \<and>
     fold_root cfg (lefts @ rights) = Some t \<and> replay cfg s rest = root_digest t"
proof (induction rights arbitrary: lefts i)
  case Nil
  then show ?case by simp
next
  case (Cons p rights)
  from fold_root_split[of cfg lefts p rights] obtain t where
    t: "fold_root cfg (lefts @ p # rights) = Some t"
    and d: "root_digest t = replay cfg (root_digest p) (fold_sequence cfg lefts rights)"
    by blast
  show ?case
  proof (cases "i < leaf_count p")
    case True
    obtain s sibs where sp: "subtree_path p i = (s, sibs)" by (cases "subtree_path p i")
    have "replay cfg s sibs = root_digest p"
      using subtree_path_replay[of cfg p i] Cons.prems(1) True sp by simp
    moreover have "s = leaves p ! i"
      using subtree_path_start[OF True] sp by simp
    ultimately show ?thesis using True sp t d
      by (simp add: replay_append nth_append length_leaves)
  next
    case False
    then have "i - leaf_count p < sum_list (map leaf_count rights)"
      using Cons.prems(2) by simp
    from Cons.IH[OF _ this, of "lefts @ [p]"] Cons.prems(1) False show ?thesis
      by (simp add: nth_append length_leaves)
  qed
qed

lemma digests_ok_join: "digests_ok cfg a \<Longrightarrow> digests_ok cfg b \<Longrightarrow> digests_ok cfg (join cfg a b)"
  by (simp add: join_def)

lemma leaves_join [simp]: "leaves (join cfg a b) = leaves a @ leaves b"
  by (simp add: join_def)

lemma leaf_count_join [simp]: "leaf_count (join cfg a b) = leaf_count a + leaf_count b"
  by (simp add: join_def)

lemma merge_rightmost_ok:
  "list_all (digests_ok cfg) ps \<Longrightarrow> list_all (digests_ok cfg) (merge_rightmost cfg ps)"
  by (induction cfg ps rule: merge_rightmost.induct) (simp_all add: digests_ok_join)

lemma merge_rightmost_leaves:
  "concat (map leaves (rev (merge_rightmost cfg ps))) = concat (map leaves (rev ps))"
  by (induction cfg ps rule: merge_rightmost.induct) simp_all

lemma merge_subroots_ok:
  "list_all (digests_ok cfg) ps \<Longrightarrow> list_all (digests_ok cfg) (merge_subroots cfg ps)"
  using merge_rightmost_ok[of cfg "rev ps"] by (simp add: merge_subroots_def)

lemma merge_subroots_leaves:
  "concat (map leaves (merge_subroots cfg ps)) = concat (map leaves ps)"
  using merge_rightmost_leaves[of cfg "rev ps"] by (simp add: merge_subroots_def)

lemma tree_length_leaves: "tree_length T = length (tree_leaves T)"
  by (simp add: tree_length_def tree_leaves_def length_concat comp_def length_leaves)

lemma tree_length_0: "tree_length T = 0 \<Longrightarrow> subroots T = []"
proof (cases "subroots T")
  case Nil
  then show ?thesis by simp
next
  case (Cons p ps)
  assume "tree_length T = 0"
  then show ?thesis using Cons leaf_count_pos[of p] by (simp add: tree_length_def)
qed

lemma update_ok:
  assumes "update T r = Inr T'" and "subroots_ok T"
  shows "subroots_ok T' \<and> tree_config T' = tree_config T \<and>
         (\<exists>d. record_digest (tree_config T) r = Inr d \<and> tree_leaves T' = tree_leaves T @ [d])"
proof -
  from assms(1) obtain d where d: "record_digest (tree_config T) r = Inr d"
    by (auto simp: update_def split: sum.splits)
  show ?thesis
  proof (cases "tree_length T = 0")
    case True
    then have "T' = T\<lparr>subroots := [MLeaf d], root := Some (MLeaf d)\<rparr>"
      using assms(1) d by (simp add: update_def)
    then show ?thesis using d tree_length_0[OF True]
      by (simp add: subroots_ok_def tree_leaves_def)
  next
    case False
    let ?ps = "merge_subroots (tree_config T) (subroots T @ [MLeaf d])"
    have T': "T' = T\<lparr>subroots := ?ps, root := fold_root (tree_config T) ?ps\<rparr>"
      using assms(1) d False by (simp add: update_def Let_def)
    have "list_all (digests_ok (tree_config T)) ?ps"
      using assms(2) by (intro merge_subroots_ok) (simp add: subroots_ok_def)
    then show ?thesis using T' d
      by (simp add: subroots_ok_def tree_leaves_def merge_subroots_leaves)
  qed
qed

lemma update_all_ok:
  "update_all T rs = Inr T' \<Longrightarrow> subroots_ok T \<Longrightarrow>
   subroots_ok T' \<and> tree_config T' = tree_config T \<and>
   map Inr (tree_leaves T') = map Inr (tree_leaves T) @ map (record_digest (tree_config T)) rs"
proof (induction rs arbitrary: T)
  case Nil
  then show ?case by simp
next
  case (Cons r rs)
  from Cons.prems(1) obtain T1 where u: "update T r = Inr T1" and a: "update_all T1 rs = Inr T'"
    by (auto split: sum.splits)
  from update_ok[OF u Cons.prems(2)] obtain d where
    ok: "subroots_ok T1" and c: "tree_config T1 = tree_config T"
    and d: "record_digest (tree_config T) r = Inr d" "tree_leaves T1 = tree_leaves T @ [d]"
    by blast
  from Cons.IH[OF a ok] c d show ?case by simp
qed

lemma MerkleTree_ok:
  assumes "MerkleTree cfg rs = Inr T"
  shows "subroots_ok T \<and> tree_config T = cfg \<and>
         map Inr (tree_leaves T) = map (record_digest cfg) rs"
proof -
  have "subroots_ok (new_tree cfg)" by (simp add: subroots_ok_def new_tree_def)
  from update_all_ok[OF assms[unfolded MerkleTree_def] this] show ?thesis
    by (simp add: new_tree_def tree_leaves_def)
qed

text \<open>An append that fails leaves no new tree: the record could not be encoded.\<close>

lemma update_undecodable:
  "record_bytes (tree_config T) r = None \<Longrightarrow> update T r = Inl Undecodable"
  by (simp add: update_def record_digest_def)

lemma MerkleTree_length:
  assumes "MerkleTree cfg rs = Inr T"
  shows "tree_length T = length rs"
proof -
  have "length (map Inr (tree_leaves T) :: (failure + bytes) list) = length (map (record_digest cfg) rs)"
    using MerkleTree_ok[OF assms] by simp
  then show ?thesis by (simp add: tree_length_leaves)
qed

lemma audit_by_index_valid:
  assumes "subroots_ok T" and "i < tree_length T"
  shows "\<exists>t. rootHash T = Some t \<and> validateProof t (audit_by_index T (int i))"
proof -
  from audit_path_ok[of "tree_config T" "subroots T" i "[]"] assms obtain s rest t where
    p: "audit_path (tree_config T) [] (subroots T) i = Some ((Plus, s) # rest)"
    and t: "fold_root (tree_config T) (subroots T) = Some t"
    and r: "replay (tree_config T) s rest = root_digest t"
    by (auto simp: subroots_ok_def tree_length_def)
  have "rootHash T = Some (root_digest t)"
    using assms(1) t by (simp add: rootHash_def subroots_ok_def)
  moreover have "validateProof (root_digest t) (audit_by_index T (int i))"
    using assms(2) p r by (simp add: audit_by_index_def validateProof_def)
  ultimately show ?thesis by blast
qed

lemma index_of_Some:
  "d \<in> set xs \<Longrightarrow> \<exists>j. index_of d xs = Some j \<and> j < length xs \<and> xs ! j = d"
  by (induction xs) auto


lemma audit_by_record_valid:
  assumes "subroots_ok T" and "record_digest (tree_config T) r = Inr d"
    and "d \<in> set (tree_leaves T)"
  shows "\<exists>t p. rootHash T = Some t \<and> auditProof T (Record r) = Inr p \<and> validateProof t p"
proof -
  from index_of_Some[OF assms(3)] obtain j where
    j: "index_of d (tree_leaves T) = Some j" "j < length (tree_leaves T)" by blast
  from audit_by_index_valid[OF assms(1), of j] j(2) obtain t where
    "rootHash T = Some t" "validateProof t (audit_by_index T (int j))"
    by (auto simp: tree_length_leaves)
  then show ?thesis using assms(2) j(1) by simp
qed

text \<open>
  The model run on the scenarios of the specification: two and three records, and the toy
  tree of three records.
\<close>

lemma three_tree_built: "MerkleTree toy_config three_records = Inr three_tree"
  by (simp add: MerkleTree_def three_records_def three_tree_def new_tree_def update_def
      record_digest_def engine_digest1_def engine_digest2_def leaf_prefix_def
      internal_prefix_def tree_length_def merge_subroots_def join_def toy_config_def Let_def)

lemma three_tree_length: "tree_length three_tree = 3"
  by (simp add: tree_length_def three_tree_def)

lemma three_tree_rootHash: "rootHash three_tree = Some [1, 1, 0, 97, 1, 0, 98, 1, 0, 99]"
  by (simp add: rootHash_def three_tree_def)

lemma three_tree_audit_1:
  "auditProof three_tree (Index 1) =
     Inr \<lparr>proof_config = toy_config, proof_index = 0,
          proof_path = [(Plus, [0, 98]), (Minus, [0, 97]), (Plus, [0, 99])]\<rparr>"
  by (simp add: audit_by_index_def three_tree_def tree_length_def fold_sequence_def)

lemma three_tree_validate_1:
  "validateProof [1, 1, 0, 97, 1, 0, 98, 1, 0, 99]
     \<lparr>proof_config = toy_config, proof_index = 0,
      proof_path = [(Plus, [0, 98]), (Minus, [0, 97]), (Plus, [0, 99])]\<rparr>"
  by (simp add: validateProof_def engine_digest2_def internal_prefix_def toy_config_def)

lemma scenario_three:
  assumes "MerkleTree cfg [Bytes a, Bytes b, Bytes c] = Inr T"
  shows "rootHash T =
           Some (engine_digest2 cfg
                  (engine_digest2 cfg (engine_digest1 cfg a) (engine_digest1 cfg b))
                  (engine_digest1 cfg c)) \<and>
         auditProof T (Index 2) =
           Inr \<lparr>proof_config = cfg, proof_index = 0,
                proof_path =
                  [(Plus, engine_digest1 cfg c),
                   (Minus, engine_digest2 cfg (engine_digest1 cfg a) (engine_digest1 cfg b))]\<rparr>"
  using assms
  by (auto simp: MerkleTree_def new_tree_def update_def record_digest_def tree_length_def
      merge_subroots_def join_def Let_def rootHash_def audit_by_index_def fold_sequence_def)

lemma scenario_two:
  assumes "MerkleTree cfg [Bytes a, Bytes b] = Inr T"
  shows "rootHash T = Some (engine_digest2 cfg (engine_digest1 cfg a) (engine_digest1 cfg b)) \<and>
         auditProof T (Index 0) =
           Inr \<lparr>proof_config = cfg, proof_index = 0,
                proof_path = [(Plus, engine_digest1 cfg a), (Plus, engine_digest1 cfg b)]\<rparr>"
  using assms
  by (auto simp: MerkleTree_def new_tree_def update_def record_digest_def tree_length_def
      merge_subroots_def join_def Let_def rootHash_def audit_by_index_def fold_sequence_def)

text \<open>
  Claim C2 (audit soundness). For every tree built from a sequence of records under any
  configuration and every index \<open>i\<close> with \<open>0 \<le> i < length\<close>, the tree has a root hash
  and \<open>validateProof\<close> accepts, against it, the audit proof of index \<open>i\<close>, the audit
  proof of the \<open>i\<close>-th record itself, and the audit proof of the encoded bytes of that
  record.
\<close>

theorem audit_soundness:
  assumes "MerkleTree cfg rs = Inr T" and "0 \<le> i" and "i < int (tree_length T)"
  shows "\<exists>t. rootHash T = Some t \<and>
           (\<exists>p. auditProof T (Index i) = Inr p \<and> validateProof t p) \<and>
           (\<exists>p. auditProof T (Record (rs ! nat i)) = Inr p \<and> validateProof t p) \<and>
           (\<forall>b. record_bytes cfg (rs ! nat i) = Some b \<longrightarrow>
              (\<exists>p. auditProof T (Record (Bytes b)) = Inr p \<and> validateProof t p))"
proof -
  from MerkleTree_ok[OF assms(1)] have ok: "subroots_ok T" and c: "tree_config T = cfg"
    and lv: "map Inr (tree_leaves T) = map (record_digest cfg) rs" by simp_all
  have n: "nat i < tree_length T" using assms(2,3) by simp
  then have n': "nat i < length (tree_leaves T)" by (simp add: tree_length_leaves)
  from audit_by_index_valid[OF ok n] assms(2) obtain t where
    t: "rootHash T = Some t" and v: "validateProof t (audit_by_index T i)" by auto
  have "map Inr (tree_leaves T) ! nat i = map (record_digest cfg) rs ! nat i"
    using lv by simp
  moreover have "nat i < length rs"
    using n MerkleTree_length[OF assms(1)] by simp
  ultimately have rd: "record_digest cfg (rs ! nat i) = Inr (tree_leaves T ! nat i)"
    using n' by simp
  have mem: "tree_leaves T ! nat i \<in> set (tree_leaves T)" using n' by simp
  have r1: "\<exists>p. auditProof T (Record (rs ! nat i)) = Inr p \<and> validateProof t p"
    using audit_by_record_valid[OF ok, of "rs ! nat i"] rd c mem t by auto
  have r2: "\<exists>p. auditProof T (Record (Bytes b)) = Inr p \<and> validateProof t p"
    if "record_bytes cfg (rs ! nat i) = Some b" for b
  proof -
    have "record_digest cfg (Bytes b) = Inr (tree_leaves T ! nat i)"
      using rd that by (simp add: record_digest_def)
    then show ?thesis
      using audit_by_record_valid[OF ok, of "Bytes b"] c mem t by auto
  qed
  show ?thesis using t v r1 r2 by auto
qed

theorem audit_soundness_witness:
  "MerkleTree toy_config three_records = Inr three_tree \<and>
   (0::int) \<le> 1 \<and> 1 < int (tree_length three_tree) \<and>
   rootHash three_tree = Some [1, 1, 0, 97, 1, 0, 98, 1, 0, 99] \<and>
   auditProof three_tree (Index 1) =
     Inr \<lparr>proof_config = toy_config, proof_index = 0,
          proof_path = [(Plus, [0, 98]), (Minus, [0, 97]), (Plus, [0, 99])]\<rparr> \<and>
   (\<exists>p. auditProof three_tree (Index 1) = Inr p \<and>
        validateProof [1, 1, 0, 97, 1, 0, 98, 1, 0, 99] p) \<and>
   (\<exists>p. auditProof three_tree (Record (Text [98])) = Inr p \<and>
        validateProof [1, 1, 0, 97, 1, 0, 98, 1, 0, 99] p) \<and>
   record_bytes toy_config (Text [98]) = Some [98] \<and>
   (\<exists>p. auditProof three_tree (Record (Bytes [98])) = Inr p \<and>
        validateProof [1, 1, 0, 97, 1, 0, 98, 1, 0, 99] p)"
proof -
  have i: "(0::int) \<le> 1" "1 < int (tree_length three_tree)"
    by (simp_all add: three_tree_length)
  have r: "three_records ! nat 1 = Text [98]"
    by (simp add: three_records_def)
  have b: "record_bytes toy_config (Text [98]) = Some [98]"
    by (simp add: toy_config_def)
  from audit_soundness[OF three_tree_built i] r b three_tree_rootHash
  have "(\<exists>p. auditProof three_tree (Index 1) = Inr p \<and>
          validateProof [1, 1, 0, 97, 1, 0, 98, 1, 0, 99] p) \<and>
        (\<exists>p. auditProof three_tree (Record (Text [98])) = Inr p \<and>
          validateProof [1, 1, 0, 97, 1, 0, 98, 1, 0, 99] p) \<and>
        (\<exists>p. auditProof three_tree (Record (Bytes [98])) = Inr p \<and>
          validateProof [1, 1, 0, 97, 1, 0, 98, 1, 0, 99] p)"
    by auto
  then show ?thesis
    using three_tree_built i b three_tree_rootHash three_tree_audit_1 by simp
qed





end
